theory Spec2Isabelle
  imports Main "HOL-Library.Multiset" "HOL-Library.Product_Lexorder"
begin

section \<open>Data model (src/components/todo-app.tsx, lines 12-28)\<close>

text \<open>
  A JavaScript \<^verbatim>\<open>Date\<close> holds a time value: an integral number of milliseconds since
  the epoch, or NaN (the "Invalid Date"). A \<^verbatim>\<open>Date\<close> object is always truthy, the
  invalid one included.
\<close>

datatype Date = InvalidDate | Time int

text \<open>
  \<^verbatim>\<open>interface Task\<close>. The optional fields \<^verbatim>\<open>reminder?\<close> and \<^verbatim>\<open>parentId?\<close> are
  options: \<open>None\<close> is \<^verbatim>\<open>undefined\<close> (key absent, or present with value undefined; the
  code never tells the two apart). The selector of the field \<^verbatim>\<open>id\<close> is \<open>task_id\<close>.
\<close>

datatype Task = Task
  (task_id: string)
  (title: string)
  (completed: bool)
  (color: string)
  (tags: "string list")
  (reminder: "Date option")
  (subtasks: "Task list")
  (parentId: "string option")

text \<open>\<^verbatim>\<open>{ ...task, subtasks: s }\<close>\<close>

fun with_subtasks :: "Task \<Rightarrow> Task list \<Rightarrow> Task" where
  "with_subtasks (Task i t c col tg r subs p) s = Task i t c col tg r s p"

text \<open>
  \<^verbatim>\<open>Omit<Task, "id" | "completed" | "subtasks">\<close>, the argument of \<^verbatim>\<open>addTask\<close>. The
  type keeps \<^verbatim>\<open>parentId?\<close>; the dialogs never set it.
\<close>

record TaskData =
  td_title :: string
  td_color :: string
  td_tags :: "string list"
  td_reminder :: "Date option"
  td_parentId :: "string option"

text \<open>
  \<^verbatim>\<open>Partial<Task>\<close>, the argument of \<^verbatim>\<open>updateTask\<close>: \<open>None\<close> is a key that the
  update does not name. For the two optional fields a named key can carry
  \<^verbatim>\<open>undefined\<close> (\<open>Some None\<close>): the edit dialog passes
  \<^verbatim>\<open>reminder: reminder ? new Date(reminder) : undefined\<close>, and the spread then
  overwrites the field with undefined.
\<close>

record Updates =
  u_id :: "string option"
  u_title :: "string option"
  u_completed :: "bool option"
  u_color :: "string option"
  u_tags :: "string list option"
  u_reminder :: "Date option option"
  u_subtasks :: "Task list option"
  u_parentId :: "string option option"

datatype Status = S_all | S_completed | S_pending | S_overdue

datatype SortBy = By_created | By_title | By_reminder

record FilterState =
  search :: string
  tag :: string
  status :: Status
  sortBy :: SortBy

section \<open>Mutations (lines 65-111)\<close>

subsection \<open>Number.prototype.toString and Number.parseInt on integers\<close>

text \<open>
  \<^verbatim>\<open>Date.now().toString()\<close>: the decimal digits of an integer, with a leading minus
  sign below zero. (JavaScript switches to exponent notation from \<open>10^21\<close> on; a clock
  reading is far below that.)
\<close>

definition digit_char :: "nat \<Rightarrow> char" where
  "digit_char d = ''0123456789'' ! d"

fun digits :: "nat \<Rightarrow> string" where
  "digits n = (if n < 10 then [digit_char n] else digits (n div 10) @ [digit_char (n mod 10)])"

declare digits.simps [simp del]

definition toString :: "int \<Rightarrow> string" where
  "toString n = (if n < 0 then CHR ''-'' # digits (nat (- n)) else digits (nat n))"

text \<open>
  \<^verbatim>\<open>Number.parseInt(string)\<close> with no radix: leading white space is skipped (the
  one-byte white space characters; a \<open>string\<close> lists code units below 256), then an
  optional sign, then \<^verbatim>\<open>0x\<close> or \<^verbatim>\<open>0X\<close> selects radix 16, then the longest prefix of
  digits is read. \<open>None\<close> is NaN (no digit read). The rounding of integers beyond
  \<open>2^53\<close> to a double is not modelled.
\<close>

definition is_ws :: "char \<Rightarrow> bool" where
  "is_ws c = (c \<in> set [CHR 0x09, CHR 0x0A, CHR 0x0B, CHR 0x0C, CHR 0x0D, CHR '' '', CHR 0xA0])"

definition digit_table :: "(char \<times> nat) list" where
  "digit_table = zip ''0123456789abcdefABCDEF'' ([0..<16] @ [10..<16])"

definition digit_val :: "nat \<Rightarrow> char \<Rightarrow> nat option" where
  "digit_val R c =
     (case map_of digit_table c of None \<Rightarrow> None | Some d \<Rightarrow> if d < R then Some d else None)"

fun parse_digits :: "nat \<Rightarrow> nat \<Rightarrow> bool \<Rightarrow> string \<Rightarrow> nat option" where
  "parse_digits R acc seen [] = (if seen then Some acc else None)"
| "parse_digits R acc seen (c # cs) =
     (case digit_val R c of
        None \<Rightarrow> (if seen then Some acc else None)
      | Some d \<Rightarrow> parse_digits R (acc * R + d) True cs)"

definition parseInt :: "string \<Rightarrow> int option" where
  "parseInt s =
     (let S = dropWhile is_ws s;
          neg = (take 1 S = ''-'');
          S1 = (if take 1 S = ''-'' \<or> take 1 S = ''+'' then drop 1 S else S);
          hex = (take 2 S1 = ''0x'' \<or> take 2 S1 = ''0X'');
          R = (if hex then 16 else 10);
          Z = (if hex then drop 2 S1 else S1)
      in map_option (\<lambda>m. if neg then - int m else int m) (parse_digits R 0 False Z))"

subsection \<open>addTask\<close>

text \<open>
  \<^verbatim>\<open>{ ...taskData, id: Date.now().toString(), completed: false, subtasks: [], parentId }\<close>.
  The clock reading \<open>now\<close> is an argument. The later keys win over the spread, so
  \<^verbatim>\<open>taskData.parentId\<close> is dropped in favour of the parameter.
\<close>

definition newTask :: "TaskData \<Rightarrow> string option \<Rightarrow> int \<Rightarrow> Task" where
  "newTask taskData parentId' now =
     Task (toString now) (td_title taskData) False (td_color taskData) (td_tags taskData)
       (td_reminder taskData) [] parentId'"

text \<open>
  \<^verbatim>\<open>if (parentId)\<close> is a truthiness test: undefined and the empty string both take the
  else branch. The subtask branch maps over the top-level tasks only.
\<close>

definition addTask :: "TaskData \<Rightarrow> string option \<Rightarrow> int \<Rightarrow> Task list \<Rightarrow> Task list" where
  "addTask taskData parentId' now prev =
     (if parentId' \<noteq> None \<and> parentId' \<noteq> Some []
      then map (\<lambda>task. if Some (task_id task) = parentId'
                        then with_subtasks task (subtasks task @ [newTask taskData parentId' now])
                        else task) prev
      else prev @ [newTask taskData parentId' now])"

subsection \<open>updateTask\<close>

text \<open>\<^verbatim>\<open>{ ...task, ...updates }\<close>: every key that \<open>updates\<close> names replaces the task's.\<close>

fun merge :: "Task \<Rightarrow> Updates \<Rightarrow> Task" where
  "merge (Task i t c col tg r subs p) updates =
     Task (case u_id updates of None \<Rightarrow> i | Some v \<Rightarrow> v)
          (case u_title updates of None \<Rightarrow> t | Some v \<Rightarrow> v)
          (case u_completed updates of None \<Rightarrow> c | Some v \<Rightarrow> v)
          (case u_color updates of None \<Rightarrow> col | Some v \<Rightarrow> v)
          (case u_tags updates of None \<Rightarrow> tg | Some v \<Rightarrow> v)
          (case u_reminder updates of None \<Rightarrow> r | Some v \<Rightarrow> v)
          (case u_subtasks updates of None \<Rightarrow> subs | Some v \<Rightarrow> v)
          (case u_parentId updates of None \<Rightarrow> p | Some v \<Rightarrow> v)"

text \<open>
  \<^verbatim>\<open>updateTaskRecursive\<close>: \<^verbatim>\<open>tasks.map\<close> with the arrow function \<open>updateOne\<close> as its
  callback; a matching task is merged and its subtasks are not searched.
\<close>

fun updateTaskRecursive :: "string \<Rightarrow> Updates \<Rightarrow> Task list \<Rightarrow> Task list"
  and updateOne :: "string \<Rightarrow> Updates \<Rightarrow> Task \<Rightarrow> Task" where
  "updateTaskRecursive taskId updates [] = []"
| "updateTaskRecursive taskId updates (task # tasks) =
     updateOne taskId updates task # updateTaskRecursive taskId updates tasks"
| "updateOne taskId updates (Task i t c col tg r subs p) =
     (if i = taskId then merge (Task i t c col tg r subs p) updates
      else if length subs > 0
        then Task i t c col tg r (updateTaskRecursive taskId updates subs) p
      else Task i t c col tg r subs p)"

definition updateTask :: "string \<Rightarrow> Updates \<Rightarrow> Task list \<Rightarrow> Task list" where
  "updateTask taskId updates prev = updateTaskRecursive taskId updates prev"

subsection \<open>deleteTask\<close>

text \<open>
  \<^verbatim>\<open>deleteTaskRecursive\<close>: \<^verbatim>\<open>tasks.filter\<close> whose callback drops a matching task and
  assigns the filtered subtasks to every task it keeps. (The source assigns
  \<^verbatim>\<open>task.subtasks\<close> in place, on the objects of the previous state; the value of the
  new state is the one computed here.)
\<close>

fun deleteTaskRecursive :: "string \<Rightarrow> Task list \<Rightarrow> Task list"
  and deleteKeep :: "string \<Rightarrow> Task \<Rightarrow> Task" where
  "deleteTaskRecursive taskId [] = []"
| "deleteTaskRecursive taskId (task # tasks) =
     (if task_id task = taskId then deleteTaskRecursive taskId tasks
      else deleteKeep taskId task # deleteTaskRecursive taskId tasks)"
| "deleteKeep taskId (Task i t c col tg r subs p) =
     (if length subs > 0 then Task i t c col tg r (deleteTaskRecursive taskId subs) p
      else Task i t c col tg r subs p)"

definition deleteTask :: "string \<Rightarrow> Task list \<Rightarrow> Task list" where
  "deleteTask taskId prev = deleteTaskRecursive taskId prev"

subsection \<open>Sequences of mutations\<close>

text \<open>
  The state \<^verbatim>\<open>tasks\<close> starts as \<^verbatim>\<open>[]\<close>; every mutation is a \<^verbatim>\<open>setTasks\<close> with an
  updater function of the previous state. An \<open>Add\<close> carries the clock reading that
  \<^verbatim>\<open>Date.now()\<close> returned for it.
\<close>

datatype Op = Add TaskData "string option" int | Update string Updates | Delete string

fun step :: "Op \<Rightarrow> Task list \<Rightarrow> Task list" where
  "step (Add taskData parentId' now) prev = addTask taskData parentId' now prev"
| "step (Update taskId updates) prev = updateTask taskId updates prev"
| "step (Delete taskId) prev = deleteTask taskId prev"

fun run :: "Op list \<Rightarrow> Task list \<Rightarrow> Task list" where
  "run [] tasks = tasks"
| "run (op # ops) tasks = run ops (step op tasks)"

section \<open>The derived view (lines 125-180)\<close>

text \<open>
  The host's locale-dependent string functions are parameters:
  \<^verbatim>\<open>String.prototype.toLowerCase\<close> and \<^verbatim>\<open>String.prototype.localeCompare\<close> (negative,
  zero or positive).
\<close>

record Host =
  toLowerCase :: "string \<Rightarrow> string"
  localeCompare :: "string \<Rightarrow> string \<Rightarrow> int"

text \<open>\<^verbatim>\<open>String.prototype.includes\<close>: the argument occurs as a contiguous substring.\<close>

fun includes_str :: "string \<Rightarrow> string \<Rightarrow> bool" where
  "includes_str [] sub = (sub = [])"
| "includes_str (c # cs) sub = (take (length sub) (c # cs) = sub \<or> includes_str cs sub)"

text \<open>
  \<^verbatim>\<open>task.reminder < new Date()\<close> compares time values; with NaN on the left it is false.
\<close>

fun before :: "Date \<Rightarrow> int \<Rightarrow> bool" where
  "before InvalidDate now = False"
| "before (Time t) now = (t < now)"

text \<open>
  \<^verbatim>\<open>task.reminder && task.reminder < new Date() && !task.completed\<close> (line 147 for a
  task, line 149 for a subtask, and line 44 of task-item.tsx). Every \<^verbatim>\<open>new Date()\<close>
  of one evaluation of the view is taken to return the same clock reading \<open>now\<close>.
\<close>

definition isOverdue :: "int \<Rightarrow> Task \<Rightarrow> bool" where
  "isOverdue now task =
     (case reminder task of None \<Rightarrow> False | Some d \<Rightarrow> before d now \<and> \<not> completed task)"

text \<open>The callback of \<^verbatim>\<open>tasks.filter\<close> (lines 126-166); \<^verbatim>\<open>some\<close> is \<open>list_ex\<close>.\<close>

definition keeps :: "Host \<Rightarrow> int \<Rightarrow> FilterState \<Rightarrow> Task \<Rightarrow> bool" where
  "keeps host now filters task =
     (if search filters \<noteq> [] \<and>
         \<not> includes_str (toLowerCase host (title task)) (toLowerCase host (search filters)) \<and>
         \<not> list_ex (\<lambda>subtask. includes_str (toLowerCase host (title subtask))
                                    (toLowerCase host (search filters))) (subtasks task)
      then False
      else if tag filters \<noteq> ''all'' \<and> tag filters \<notin> set (tags task) \<and>
         \<not> list_ex (\<lambda>subtask. tag filters \<in> set (tags subtask)) (subtasks task)
      then False
      else if status filters \<noteq> S_all
      then (let isOverdue' = isOverdue now task;
                hasOverdueSubtasks = list_ex (isOverdue now) (subtasks task)
            in case status filters of
                 S_completed \<Rightarrow>
                   (if \<not> completed task \<and> \<not> list_ex completed (subtasks task) then False else True)
               | S_pending \<Rightarrow>
                   (if completed task \<or> isOverdue' \<or> hasOverdueSubtasks then False else True)
               | S_overdue \<Rightarrow>
                   (if \<not> isOverdue' \<and> \<not> hasOverdueSubtasks then False else True)
               | S_all \<Rightarrow> True)
      else True)"

text \<open>
  The comparator of \<^verbatim>\<open>.sort\<close> (lines 167-180). A NaN result (an Invalid Date's
  \<^verbatim>\<open>getTime()\<close>, or an id that \<^verbatim>\<open>parseInt\<close> rejects) counts as \<open>0\<close>, as
  \<^verbatim>\<open>Array.prototype.sort\<close> reads it.
\<close>

definition compareTasks :: "Host \<Rightarrow> SortBy \<Rightarrow> Task \<Rightarrow> Task \<Rightarrow> int" where
  "compareTasks host order a b =
     (case order of
        By_title \<Rightarrow> localeCompare host (title a) (title b)
      | By_reminder \<Rightarrow>
          (case (reminder a, reminder b) of
             (None, None) \<Rightarrow> 0
           | (None, Some db) \<Rightarrow> 1
           | (Some da, None) \<Rightarrow> - 1
           | (Some (Time x), Some (Time y)) \<Rightarrow> x - y
           | (Some da, Some db) \<Rightarrow> 0)
      | By_created \<Rightarrow>
          (case (parseInt (task_id a), parseInt (task_id b)) of
             (Some x, Some y) \<Rightarrow> x - y
           | _ \<Rightarrow> 0))"

text \<open>
  \<^verbatim>\<open>Array.prototype.sort\<close> is stable (ECMAScript 2019), and with a consistent
  comparator its result is the one stable ordering; insertion from the right computes
  it. With an inconsistent comparator the order is implementation-defined, and this
  definition is one such implementation.
\<close>

fun insert_sorted :: "('a \<Rightarrow> 'a \<Rightarrow> int) \<Rightarrow> 'a \<Rightarrow> 'a list \<Rightarrow> 'a list" where
  "insert_sorted cmp x [] = [x]"
| "insert_sorted cmp x (y # ys) =
     (if cmp x y \<le> 0 then x # y # ys else y # insert_sorted cmp x ys)"

fun sort_with :: "('a \<Rightarrow> 'a \<Rightarrow> int) \<Rightarrow> 'a list \<Rightarrow> 'a list" where
  "sort_with cmp [] = []"
| "sort_with cmp (x # xs) = insert_sorted cmp x (sort_with cmp xs)"

definition sortTasks :: "Host \<Rightarrow> SortBy \<Rightarrow> Task list \<Rightarrow> Task list" where
  "sortTasks host order tasks = sort_with (compareTasks host order) tasks"

definition filteredTasks :: "Host \<Rightarrow> int \<Rightarrow> FilterState \<Rightarrow> Task list \<Rightarrow> Task list" where
  "filteredTasks host now filters tasks =
     sortTasks host (sortBy filters) (filter (keeps host now filters) tasks)"

subsection \<open>The same evaluation on arrays in a store\<close>

text \<open>
  Arrays are mutable objects: a store lists the arrays, an address is an index into
  it. \<^verbatim>\<open>filter\<close> allocates its result; \<^verbatim>\<open>sort\<close> sorts the array it is called on, in
  place, and returns the same address.
\<close>

type_synonym store = "Task list list"

definition array_filter :: "(Task \<Rightarrow> bool) \<Rightarrow> nat \<Rightarrow> store \<Rightarrow> nat \<times> store" where
  "array_filter P a h = (length h, h @ [filter P (h ! a)])"

definition array_sort :: "(Task \<Rightarrow> Task \<Rightarrow> int) \<Rightarrow> nat \<Rightarrow> store \<Rightarrow> nat \<times> store" where
  "array_sort cmp a h = (a, h[a := sort_with cmp (h ! a)])"

definition filteredTasks_in_store ::
  "Host \<Rightarrow> int \<Rightarrow> FilterState \<Rightarrow> nat \<Rightarrow> store \<Rightarrow> nat \<times> store" where
  "filteredTasks_in_store host now filters tasks h =
     (case array_filter (keeps host now filters) tasks h of
        (filtered, h') \<Rightarrow> array_sort (compareTasks host (sortBy filters)) filtered h')"

section \<open>Persistence (lines 41-63)\<close>

text \<open>
  The host's date codec is a parameter: \<^verbatim>\<open>Date.prototype.toISOString\<close> on a time
  value, and \<^verbatim>\<open>new Date(string)\<close>.
\<close>

record DateCodec =
  toISOString :: "int \<Rightarrow> string"
  parseDate :: "string \<Rightarrow> Date"

text \<open>
  A task record of the persisted JSON document. The reminder is a string, null or
  left out; \<^verbatim>\<open>subtasks\<close> can be missing (\<open>None\<close>).
\<close>

datatype Field = Omitted | Null | Str string

datatype Raw = Raw
  (r_id: string)
  (r_title: string)
  (r_completed: bool)
  (r_color: string)
  (r_tags: "string list")
  (r_reminder: Field)
  (r_subtasks: "Raw list option")
  (r_parentId: "string option")

text \<open>
  What \<^verbatim>\<open>localStorage.getItem("todo-tasks")\<close> returns, by what \<^verbatim>\<open>JSON.parse\<close> makes
  of it: null, a string that is not JSON text (the empty string is one), the text of a
  JSON value that is not an array (null, a number, a string, a boolean, an object), or
  the text of an array of task records. \<^verbatim>\<open>JSON.stringify\<close> and \<^verbatim>\<open>JSON.parse\<close> are
  taken to be inverse on such arrays. An array with an entry that is not a task record
  (an entry that is no object, or one whose \<^verbatim>\<open>id\<close>, \<^verbatim>\<open>title\<close>, \<^verbatim>\<open>completed\<close>,
  \<^verbatim>\<open>color\<close> or \<^verbatim>\<open>tags\<close> is missing or of another type) is not modelled.
\<close>

datatype Stored = NoItem | NotJson string | NotArray | Doc "Raw list"

text \<open>
  \<^verbatim>\<open>JSON.stringify(tasks)\<close>: a key whose value is undefined is left out; a Date is
  written by \<^verbatim>\<open>toJSON\<close>, the ISO string of a valid date and null for an invalid one.
\<close>

definition reminderJSON :: "DateCodec \<Rightarrow> Date option \<Rightarrow> Field" where
  "reminderJSON codec r =
     (case r of None \<Rightarrow> Omitted | Some InvalidDate \<Rightarrow> Null
      | Some (Time ms) \<Rightarrow> Str (toISOString codec ms))"

fun toRaw :: "DateCodec \<Rightarrow> Task \<Rightarrow> Raw" where
  "toRaw codec (Task i t c col tg r subs p) =
     Raw i t c col tg (reminderJSON codec r) (Some (map (toRaw codec) subs)) p"

definition save :: "DateCodec \<Rightarrow> Task list \<Rightarrow> Stored" where
  "save codec tasks = Doc (map (toRaw codec) tasks)"

text \<open>\<^verbatim>\<open>task.reminder ? new Date(task.reminder) : undefined\<close>\<close>

definition revive :: "DateCodec \<Rightarrow> Field \<Rightarrow> Date option" where
  "revive codec f =
     (case f of Omitted \<Rightarrow> None | Null \<Rightarrow> None
      | Str s \<Rightarrow> if s = [] then None else Some (parseDate codec s))"

text \<open>
  The loader converts two levels. Below them \<^verbatim>\<open>...subtask\<close> keeps what
  \<^verbatim>\<open>JSON.parse\<close> returned: a record there is a \<open>Task\<close> only if it holds its
  \<^verbatim>\<open>subtasks\<close> array and no reminder string but the empty one, all the way down. (The
  empty string, like null, is falsy: every reader of \<^verbatim>\<open>reminder\<close> takes it as absent.
  \<^verbatim>\<open>TaskItem\<close> reads \<^verbatim>\<open>task.subtasks.length\<close> of every task and calls
  \<^verbatim>\<open>task.reminder.toLocaleDateString()\<close> on every truthy reminder, lines 132 and 94
  of task-item.tsx, which throws a TypeError on the records excluded here.)
\<close>

fun asParsed :: "Raw \<Rightarrow> Task option" where
  "asParsed (Raw i t c col tg r subs p) =
     (if (case r of Str s \<Rightarrow> s \<noteq> [] | _ \<Rightarrow> False) then None
      else
        (case subs of
           None \<Rightarrow> None
         | Some rs \<Rightarrow>
           (case those (map asParsed rs) of
              None \<Rightarrow> None
            | Some ts \<Rightarrow> Some (Task i t c col tg None ts p))))"

text \<open>
  \<^verbatim>\<open>{ ...subtask, reminder: subtask.reminder ? new Date(subtask.reminder) : undefined }\<close>
\<close>

fun loadSubtask :: "DateCodec \<Rightarrow> Raw \<Rightarrow> Task option" where
  "loadSubtask codec (Raw i t c col tg r subs p) =
     (case subs of
        None \<Rightarrow> None
      | Some rs \<Rightarrow>
        (case those (map asParsed rs) of
           None \<Rightarrow> None
         | Some ts \<Rightarrow> Some (Task i t c col tg (revive codec r) ts p)))"

text \<open>
  \<^verbatim>\<open>{ ...task, reminder: ..., subtasks: task.subtasks?.map(...) || [] }\<close>
\<close>

fun loadTask :: "DateCodec \<Rightarrow> Raw \<Rightarrow> Task option" where
  "loadTask codec (Raw i t c col tg r subs p) =
     (case (case subs of None \<Rightarrow> Some [] | Some rs \<Rightarrow> those (map (loadSubtask codec) rs)) of
        None \<Rightarrow> None
      | Some ts \<Rightarrow> Some (Task i t c col tg (revive codec r) ts p))"

text \<open>
  The effect on mount. \<open>Unchanged\<close>: \<^verbatim>\<open>if (savedTasks)\<close> failed, \<^verbatim>\<open>setTasks\<close> is not
  called. \<open>SyntaxError\<close>: \<^verbatim>\<open>JSON.parse\<close> threw; the effect has no handler.
  \<open>TypeError\<close>: \<^verbatim>\<open>parsedTasks.map\<close> threw, the parsed value being no array; the effect
  has no handler. \<open>SetTasks\<close>: the new state. \<open>IllTyped\<close>: \<^verbatim>\<open>setTasks\<close> got a value
  that is not a \<^verbatim>\<open>Task[]\<close> (a subtask without its \<^verbatim>\<open>subtasks\<close> array, or a string
  where a Date belongs); the render that follows throws on it, and this model does not
  follow it further.
\<close>

datatype Outcome = Unchanged | SyntaxError | TypeError | IllTyped | SetTasks "Task list"

definition load :: "DateCodec \<Rightarrow> Stored \<Rightarrow> Outcome" where
  "load codec savedTasks =
     (case savedTasks of
        NoItem \<Rightarrow> Unchanged
      | NotJson s \<Rightarrow> if s = [] then Unchanged else SyntaxError
      | NotArray \<Rightarrow> TypeError
      | Doc parsedTasks \<Rightarrow>
        (case those (map (loadTask codec) parsedTasks) of
           None \<Rightarrow> IllTyped
         | Some tasksWithDates \<Rightarrow> SetTasks tasksWithDates))"

section \<open>Notions the properties are stated with\<close>

text \<open>The ids of a tree in preorder: a task, then its subtasks.\<close>

fun all_ids :: "Task list \<Rightarrow> string list"
  and ids_of :: "Task \<Rightarrow> string list" where
  "all_ids [] = []"
| "all_ids (task # tasks) = ids_of task @ all_ids tasks"
| "ids_of (Task i t c col tg r subs p) = i # all_ids subs"

text \<open>
  A position in a tree is a path of indices: \<open>[i]\<close> is the top-level task \<open>i\<close>,
  \<open>i # path\<close> is position \<open>path\<close> among the subtasks of task \<open>i\<close>.
\<close>

fun task_at :: "Task list \<Rightarrow> nat list \<Rightarrow> Task option" where
  "task_at ts [] = None"
| "task_at ts [i] = (if i < length ts then Some (ts ! i) else None)"
| "task_at ts (i # j # js) =
     (if i < length ts then task_at (subtasks (ts ! i)) (j # js) else None)"

text \<open>The tree with the task at a position replaced, and nothing else touched.\<close>

fun replace_at :: "Task list \<Rightarrow> nat list \<Rightarrow> Task \<Rightarrow> Task list" where
  "replace_at ts [] b = ts"
| "replace_at ts [i] b = ts[i := b]"
| "replace_at ts (i # j # js) b =
     ts[i := with_subtasks (ts ! i) (replace_at (subtasks (ts ! i)) (j # js) b)]"

text \<open>
  The tree with the task at a position taken out of its sequence (its subtasks go with
  it), and nothing else touched.
\<close>

fun remove_at :: "Task list \<Rightarrow> nat list \<Rightarrow> Task list" where
  "remove_at ts [] = ts"
| "remove_at ts [i] = take i ts @ drop (Suc i) ts"
| "remove_at ts (i # j # js) =
     ts[i := with_subtasks (ts ! i) (remove_at (subtasks (ts ! i)) (j # js))]"

text \<open>The clock readings of the adds of a sequence of mutations, in order.\<close>

fun clocks :: "Op list \<Rightarrow> int list" where
  "clocks [] = []"
| "clocks (Add taskData parentId' now # ops) = now # clocks ops"
| "clocks (op # ops) = clocks ops"

text \<open>
  An update that names neither \<^verbatim>\<open>id\<close> nor \<^verbatim>\<open>subtasks\<close>, as every caller in the
  components does (they name \<^verbatim>\<open>completed\<close>, \<^verbatim>\<open>color\<close>, \<^verbatim>\<open>title\<close>, \<^verbatim>\<open>tags\<close>,
  \<^verbatim>\<open>reminder\<close>).
\<close>

fun keeps_shape :: "Op \<Rightarrow> bool" where
  "keeps_shape (Update taskId updates) = (u_id updates = None \<and> u_subtasks updates = None)"
| "keeps_shape op = True"

text \<open>An update that does not name \<^verbatim>\<open>subtasks\<close>.\<close>

fun keeps_subtasks :: "Op \<Rightarrow> bool" where
  "keeps_subtasks (Update taskId updates) = (u_subtasks updates = None)"
| "keeps_subtasks op = True"

text \<open>The number of levels of a tree.\<close>

fun height :: "Task list \<Rightarrow> nat" and height1 :: "Task \<Rightarrow> nat" where
  "height [] = 0"
| "height (task # tasks) = max (height1 task) (height tasks)"
| "height1 (Task i t c col tg r subs p) = Suc (height subs)"

text \<open>No entry of a subtasks sequence has subtasks of its own.\<close>

definition single_level :: "Task list \<Rightarrow> bool" where
  "single_level tasks =
     list_all (\<lambda>task. list_all (\<lambda>subtask. subtasks subtask = []) (subtasks task)) tasks"

text \<open>The callback of the subtask branch of \<open>addTask\<close>.\<close>

definition attach :: "string \<Rightarrow> Task \<Rightarrow> Task \<Rightarrow> Task" where
  "attach pid n task =
     (if task_id task = pid then with_subtasks task (subtasks task @ [n]) else task)"

text \<open>The invariant of a run: \<open>seen\<close> holds the clock readings used so far.\<close>

definition tree_inv :: "int set \<Rightarrow> Task list \<Rightarrow> bool" where
  "tree_inv seen tasks \<longleftrightarrow>
     distinct (all_ids tasks) \<and> height tasks \<le> 2 \<and> set (all_ids tasks) \<subseteq> toString ` seen"

text \<open>
  The order that the comparator for \<^verbatim>\<open>reminder\<close> induces on tasks with valid dates:
  tasks with a reminder first, by time value, then the tasks without one.
\<close>

definition reminder_key :: "Task \<Rightarrow> nat \<times> int" where
  "reminder_key task =
     (case reminder task of None \<Rightarrow> (1, 0) | Some InvalidDate \<Rightarrow> (0, 0) | Some (Time ms) \<Rightarrow> (0, ms))"

text \<open>The time value of a reminder.\<close>

definition reminder_time :: "Task \<Rightarrow> int" where
  "reminder_time task = (case reminder task of Some (Time ms) \<Rightarrow> ms | _ \<Rightarrow> 0)"

text \<open>
  The top-level ids are the decimal strings of a nondecreasing list of clock readings
  drawn from \<open>seen\<close>.
\<close>

definition created_inv :: "int set \<Rightarrow> Task list \<Rightarrow> bool" where
  "created_inv seen tasks \<longleftrightarrow>
     (\<exists>cs. map task_id tasks = map toString cs \<and> sorted cs \<and> set cs \<subseteq> seen)"

text \<open>
  The top-level ids in the order of insertion, by the mutations alone and with no look
  at the numbers in the ids: a top-level add puts its id at the end, a delete takes an id
  out, and nothing else moves a top-level task.
\<close>

fun insertion_order :: "Op list \<Rightarrow> string list \<Rightarrow> string list" where
  "insertion_order [] ids = ids"
| "insertion_order (Add taskData parentId' now # ops) ids =
     insertion_order ops
       (if parentId' = None \<or> parentId' = Some [] then ids @ [toString now] else ids)"
| "insertion_order (Update taskId updates # ops) ids = insertion_order ops ids"
| "insertion_order (Delete taskId # ops) ids =
     insertion_order ops (filter (\<lambda>i. i \<noteq> taskId) ids)"

text \<open>What a reminder becomes when it is written and read back.\<close>

definition redate :: "DateCodec \<Rightarrow> Date option \<Rightarrow> Date option" where
  "redate codec r = revive codec (reminderJSON codec r)"

text \<open>What a subtask and a top-level task become when the tree is saved and loaded.\<close>

fun reloadSub :: "DateCodec \<Rightarrow> Task \<Rightarrow> Task" where
  "reloadSub codec (Task i t c col tg r subs p) = Task i t c col tg (redate codec r) subs p"

fun reloadTask :: "DateCodec \<Rightarrow> Task \<Rightarrow> Task" where
  "reloadTask codec (Task i t c col tg r subs p) =
     Task i t c col tg (redate codec r) (map (reloadSub codec) subs) p"

text \<open>
  A record below the second level that is a task as it stands: it holds its
  \<^verbatim>\<open>subtasks\<close> array and no reminder string but the empty one, and so do the records
  under it.
\<close>

fun task_as_parsed :: "Raw \<Rightarrow> bool" where
  "task_as_parsed (Raw i t c col tg r subs p) =
     ((case r of Str s \<Rightarrow> s = [] | _ \<Rightarrow> True) \<and>
      (case subs of None \<Rightarrow> False | Some rs \<Rightarrow> list_all task_as_parsed rs))"

text \<open>
  A subtask record that loads: it holds its \<^verbatim>\<open>subtasks\<close> array, of records that are
  tasks as they stand. A top-level record that loads: its subtasks, if it has the array,
  are subtask records that load.
\<close>

definition sub_record_ok :: "Raw \<Rightarrow> bool" where
  "sub_record_ok r =
     (case r_subtasks r of None \<Rightarrow> False | Some rs \<Rightarrow> list_all task_as_parsed rs)"

definition top_record_ok :: "Raw \<Rightarrow> bool" where
  "top_record_ok r =
     (case r_subtasks r of None \<Rightarrow> True | Some rs \<Rightarrow> list_all sub_record_ok rs)"

text \<open>
  The task of a record: below the second level with no reminder, at the first two levels
  with the reminder that the date parser makes of the string.
\<close>

fun record_task :: "Raw \<Rightarrow> Task" where
  "record_task (Raw i t c col tg r subs p) =
     Task i t c col tg None (case subs of None \<Rightarrow> [] | Some rs \<Rightarrow> map record_task rs) p"

fun revived_sub :: "DateCodec \<Rightarrow> Raw \<Rightarrow> Task" where
  "revived_sub codec (Raw i t c col tg r subs p) =
     Task i t c col tg (revive codec r)
       (case subs of None \<Rightarrow> [] | Some rs \<Rightarrow> map record_task rs) p"

fun revived_task :: "DateCodec \<Rightarrow> Raw \<Rightarrow> Task" where
  "revived_task codec (Raw i t c col tg r subs p) =
     Task i t c col tg (revive codec r)
       (case subs of None \<Rightarrow> [] | Some rs \<Rightarrow> map (revived_sub codec) rs) p"

text \<open>
  The host's codec returns a valid date: its ISO string is not empty and parses back to
  the same time value (ECMAScript requires this of \<^verbatim>\<open>toISOString\<close> and
  \<^verbatim>\<open>Date.parse\<close>). An Invalid Date has no ISO string.
\<close>

fun round_trips :: "DateCodec \<Rightarrow> Date \<Rightarrow> bool" where
  "round_trips codec InvalidDate = False"
| "round_trips codec (Time ms) =
     (toISOString codec ms \<noteq> [] \<and> parseDate codec (toISOString codec ms) = Time ms)"

text \<open>The reminders of a tree that are set, at every level.\<close>

fun dates :: "Task list \<Rightarrow> Date list" and dates1 :: "Task \<Rightarrow> Date list" where
  "dates [] = []"
| "dates (task # tasks) = dates1 task @ dates tasks"
| "dates1 (Task i t c col tg r subs p) =
     (case r of None \<Rightarrow> [] | Some d \<Rightarrow> [d]) @ dates subs"

subsection \<open>Example values\<close>

definition ex_sub :: Task where
  "ex_sub = Task ''2'' ''2% milk'' False ''bg-card'' [] None [] (Some ''1'')"

definition ex_tree :: "Task list" where
  "ex_tree =
     [Task ''1'' ''Buy milk'' False ''bg-card'' [''errand''] None [ex_sub] None,
      Task ''3'' ''Call home'' False ''bg-blue-50'' [] (Some (Time 1000)) [] None]"

definition ex_done :: Updates where
  "ex_done = \<lparr>u_id = None, u_title = None, u_completed = Some True, u_color = None,
     u_tags = None, u_reminder = None, u_subtasks = None, u_parentId = None\<rparr>"

text \<open>Updates that name \<^verbatim>\<open>id\<close> or \<^verbatim>\<open>subtasks\<close>.\<close>

definition ex_rename :: Updates where
  "ex_rename = \<lparr>u_id = Some ''5'', u_title = None, u_completed = None, u_color = None,
     u_tags = None, u_reminder = None, u_subtasks = None, u_parentId = None\<rparr>"

definition ex_renumber :: Updates where
  "ex_renumber = \<lparr>u_id = Some ''9'', u_title = None, u_completed = None, u_color = None,
     u_tags = None, u_reminder = None, u_subtasks = None, u_parentId = None\<rparr>"

definition ex_nest :: Updates where
  "ex_nest = \<lparr>u_id = None, u_title = None, u_completed = None, u_color = None,
     u_tags = None, u_reminder = None, u_subtasks = Some [ex_sub], u_parentId = None\<rparr>"

text \<open>
  An edit as the edit dialog submits it: it names \<^verbatim>\<open>title\<close>, \<^verbatim>\<open>tags\<close>, \<^verbatim>\<open>reminder\<close>
  (here undefined, which clears it) and \<^verbatim>\<open>color\<close>.
\<close>

definition ex_edit :: Updates where
  "ex_edit = \<lparr>u_id = None, u_title = Some ''Call mum'', u_completed = None,
     u_color = Some ''bg-red-50'', u_tags = Some [''family''], u_reminder = Some None,
     u_subtasks = None, u_parentId = None\<rparr>"

definition ex_data :: TaskData where
  "ex_data = \<lparr>td_title = ''Buy milk'', td_color = ''bg-card'', td_tags = [''errand''],
     td_reminder = None, td_parentId = None\<rparr>"

definition ex_ops :: "Op list" where
  "ex_ops = [Add ex_data None 5, Add ex_data None 5, Add ex_data (Some ''5'') 7,
             Add ex_data None 7, Update ''7'' ex_done, Delete ''9'']"

text \<open>An example host: ASCII lower-casing, comparison by code unit.\<close>

definition ascii_lower :: "char \<Rightarrow> char" where
  "ascii_lower c =
     (case map_of (zip ''ABCDEFGHIJKLMNOPQRSTUVWXYZ'' ''abcdefghijklmnopqrstuvwxyz'') c of
        None \<Rightarrow> c | Some l \<Rightarrow> l)"

fun compare_units :: "string \<Rightarrow> string \<Rightarrow> int" where
  "compare_units [] [] = 0"
| "compare_units [] (d # ds) = - 1"
| "compare_units (c # cs) [] = 1"
| "compare_units (c # cs) (d # ds) =
     (if (of_char c :: nat) < of_char d then - 1
      else if (of_char d :: nat) < of_char c then 1
      else compare_units cs ds)"

definition ex_host :: Host where
  "ex_host = \<lparr>toLowerCase = map ascii_lower, localeCompare = compare_units\<rparr>"

text \<open>
  The host's date codec at the values the examples use: two time values with their ISO
  strings, and no date for any other string.
\<close>

definition ex_codec :: DateCodec where
  "ex_codec =
     \<lparr>toISOString = (\<lambda>ms. if ms = 0 then ''1970-01-01T00:00:00.000Z''
                          else if ms = 90000 then ''1970-01-01T00:01:30.000Z'' else []),
      parseDate = (\<lambda>s. if s = ''1970-01-01T00:00:00.000Z'' then Time 0
                        else if s = ''1970-01-01T00:01:30.000Z'' then Time 90000
                        else InvalidDate)\<rparr>"

definition ex_task :: "string \<Rightarrow> Date option \<Rightarrow> bool \<Rightarrow> Task list \<Rightarrow> Task" where
  "ex_task i r c subs = Task i ''task'' c ''bg-card'' [] r subs None"

definition ex_list :: "Task list" where
  "ex_list =
     [ex_task ''1'' None False [], ex_task ''2'' (Some (Time 20)) False [],
      ex_task ''3'' (Some (Time 10)) False [], ex_task ''4'' None False [],
      ex_task ''5'' (Some (Time 10)) False []]"

text \<open>Reminders at 30, an Invalid Date, and 10.\<close>

definition ex_invalid :: "Task list" where
  "ex_invalid =
     [ex_task ''1'' (Some (Time 30)) False [], ex_task ''2'' (Some InvalidDate) False [],
      ex_task ''3'' (Some (Time 10)) False []]"

definition ex_overdue :: FilterState where
  "ex_overdue = \<lparr>search = [], tag = ''all'', status = S_overdue, sortBy = By_created\<rparr>"

definition ex_all :: FilterState where
  "ex_all = \<lparr>search = [], tag = ''all'', status = S_all, sortBy = By_reminder\<rparr>"

text \<open>
  With the clock at 4000000, a reminder one hour (3600000 ms) earlier is at 400000.
\<close>

definition ex_late :: Task where "ex_late = ex_task ''1'' (Some (Time 400000)) False []"

definition ex_late_done :: Task where "ex_late_done = ex_task ''2'' (Some (Time 400000)) True []"

definition ex_parent :: Task where
  "ex_parent = ex_task ''3'' None False [ex_task ''4'' (Some (Time 400000)) False []]"

definition ex_plain :: Task where "ex_plain = ex_task ''5'' None False []"

definition ex_dated :: "Task list" where
  "ex_dated =
     [Task ''1'' ''Buy milk'' False ''bg-card'' [''errand''] (Some (Time 90000))
        [Task ''2'' ''2% milk'' True ''bg-blue-50'' [] (Some (Time 0)) [] (Some ''1''),
         Task ''3'' ''Oat milk'' False ''bg-card'' [''vegan''] None [] (Some ''1'')] None,
      Task ''4'' ''Call home'' False ''bg-card'' [] None [] None]"

text \<open>A document whose subtask record has no \<^verbatim>\<open>subtasks\<close> array.\<close>

definition ex_ill :: "Raw list" where
  "ex_ill =
     [Raw ''1'' ''Buy milk'' False ''bg-card'' [] Omitted
        (Some [Raw ''2'' ''2% milk'' False ''bg-card'' [] Omitted None (Some ''1'')]) None]"

text \<open>
  A document with a reminder string that is no date, at the first and at the second
  level, and a record without the \<^verbatim>\<open>subtasks\<close> key.
\<close>

definition ex_corrupt2 :: "Raw list" where
  "ex_corrupt2 =
     [Raw ''1'' ''Buy milk'' False ''bg-card'' [] (Str ''not a date'')
        (Some [Raw ''2'' ''2% milk'' True ''bg-card'' [] (Str ''not a date'') (Some [])
                 (Some ''1'')]) None,
      Raw ''3'' ''Call home'' False ''bg-card'' [''family''] Null None None]"

definition ex_corrupt :: "Raw list" where
  "ex_corrupt =
     [Raw ''1'' ''Buy milk'' False ''bg-card'' [] (Str ''not a date'') (Some []) None,
      Raw ''2'' ''Call home'' False ''bg-card'' [] Omitted (Some []) None]"

section \<open>Lemmas on trees, update and delete\<close>

lemma ids_of_sel: "ids_of task = task_id task # all_ids (subtasks task)"
  by (cases task) simp

lemma with_subtasks_same [simp]: "with_subtasks task (subtasks task) = task"
  by (cases task) simp

lemma with_subtasks_sel [simp]:
  "task_id (with_subtasks task s) = task_id task"
  "subtasks (with_subtasks task s) = s"
  by (cases task; simp)+

lemma all_ids_append [simp]: "all_ids (xs @ ys) = all_ids xs @ all_ids ys"
  by (induction xs) auto

lemma all_ids_nth: "i < length ts \<Longrightarrow> set (ids_of (ts ! i)) \<subseteq> set (all_ids ts)"
  by (induction ts arbitrary: i) (auto simp: nth_Cons split: nat.splits)

lemma task_at_ids: "task_at ts path = Some a \<Longrightarrow> task_id a \<in> set (all_ids ts)"
proof (induction ts path rule: task_at.induct)
  case (1 ts)
  then show ?case by simp
next
  case (2 ts i)
  then show ?case using all_ids_nth[of i ts] by (auto simp: ids_of_sel split: if_splits)
next
  case (3 ts i j js)
  then show ?case using all_ids_nth[of i ts] by (auto simp: ids_of_sel split: if_splits)
qed

lemma task_at_nonempty: "task_at ts path = Some a \<Longrightarrow> path \<noteq> []"
  by (cases path) auto

lemma ids_nth_ex: "x \<in> set (all_ids ts) \<Longrightarrow> \<exists>i<length ts. x \<in> set (ids_of (ts ! i))"
proof (induction ts)
  case Nil
  then show ?case by simp
next
  case (Cons a ts)
  show ?case
  proof (cases "x \<in> set (ids_of a)")
    case True
    then have "0 < length (a # ts) \<and> x \<in> set (ids_of ((a # ts) ! 0))" by simp
    then show ?thesis by blast
  next
    case False
    with Cons obtain i where "i < length ts" "x \<in> set (ids_of (ts ! i))" by auto
    then have "Suc i < length (a # ts) \<and> x \<in> set (ids_of ((a # ts) ! Suc i))" by simp
    then show ?thesis by blast
  qed
qed

lemma task_has_path:
  "x \<in> set (ids_of t) \<Longrightarrow>
   task_id t = x \<or> (\<exists>path a. task_at (subtasks t) path = Some a \<and> task_id a = x)"
proof (induction t)
  case (Task i t c col tg r subs p)
  show ?case
  proof (cases "i = x")
    case True
    then show ?thesis by simp
  next
    case False
    with Task.prems have "x \<in> set (all_ids subs)" by simp
    then obtain k where k: "k < length subs" "x \<in> set (ids_of (subs ! k))"
      using ids_nth_ex by blast
    then have "subs ! k \<in> set subs" by simp
    from Task.IH[OF this k(2)]
    have "\<exists>path a. task_at subs path = Some a \<and> task_id a = x"
    proof
      assume "task_id (subs ! k) = x"
      with k(1) have "task_at subs [k] = Some (subs ! k) \<and> task_id (subs ! k) = x" by simp
      then show ?thesis by blast
    next
      assume "\<exists>path a. task_at (subtasks (subs ! k)) path = Some a \<and> task_id a = x"
      then obtain path a where pa: "task_at (subtasks (subs ! k)) path = Some a" "task_id a = x"
        by blast
      then obtain j js where "path = j # js" using task_at_nonempty by (cases path) auto
      with pa k(1) have "task_at subs (k # path) = Some a \<and> task_id a = x" by simp
      then show ?thesis by blast
    qed
    then show ?thesis by simp
  qed
qed

lemma id_has_path:
  assumes "x \<in> set (all_ids ts)"
  shows "\<exists>path a. task_at ts path = Some a \<and> task_id a = x"
proof -
  from assms obtain k where k: "k < length ts" "x \<in> set (ids_of (ts ! k))"
    using ids_nth_ex by blast
  from task_has_path[OF k(2)] show ?thesis
  proof
    assume "task_id (ts ! k) = x"
    with k(1) have "task_at ts [k] = Some (ts ! k) \<and> task_id (ts ! k) = x" by simp
    then show ?thesis by blast
  next
    assume "\<exists>path a. task_at (subtasks (ts ! k)) path = Some a \<and> task_id a = x"
    then obtain path a where pa: "task_at (subtasks (ts ! k)) path = Some a" "task_id a = x"
      by blast
    then obtain j js where "path = j # js" using task_at_nonempty by (cases path) auto
    with pa k(1) have "task_at ts (k # path) = Some a \<and> task_id a = x" by simp
    then show ?thesis by blast
  qed
qed

lemma count_all_ids_append:
  "count_list (all_ids (xs @ ys)) x = count_list (all_ids xs) x + count_list (all_ids ys) x"
  by (induction xs) auto

lemma count_pos: "x \<in> set xs \<Longrightarrow> 0 < count_list xs x"
  using count_list_0_iff[of xs x] by simp

lemma count_split:
  assumes "i < length ts"
  shows "count_list (all_ids ts) x =
     count_list (all_ids (take i ts)) x + count_list (ids_of (ts ! i)) x +
     count_list (all_ids (drop (Suc i) ts)) x"
proof -
  have "ts = take i ts @ ts ! i # drop (Suc i) ts" using assms by (rule id_take_nth_drop)
  then have "count_list (all_ids ts) x =
      count_list (all_ids (take i ts @ ts ! i # drop (Suc i) ts)) x" by simp
  then show ?thesis by (simp only: count_all_ids_append all_ids.simps count_list_append)
qed

lemma once_elsewhere:
  assumes "count_list (all_ids ts) x = 1" "i < length ts" "x \<in> set (ids_of (ts ! i))"
  shows "x \<notin> set (all_ids (take i ts))" "x \<notin> set (all_ids (drop (Suc i) ts))"
    "count_list (ids_of (ts ! i)) x = 1"
proof -
  have "0 < count_list (ids_of (ts ! i)) x" using assms(3) by (rule count_pos)
  with count_split[OF assms(2), of x] assms(1)
  have "count_list (all_ids (take i ts)) x = 0" "count_list (all_ids (drop (Suc i) ts)) x = 0"
    "count_list (ids_of (ts ! i)) x = 1"
    by linarith+
  then show "x \<notin> set (all_ids (take i ts))" "x \<notin> set (all_ids (drop (Suc i) ts))"
    "count_list (ids_of (ts ! i)) x = 1"
    by (simp_all add: count_list_0_iff)
qed

lemma once_inside:
  assumes "count_list (ids_of task) x = 1" "x \<in> set (all_ids (subtasks task))"
  shows "task_id task \<noteq> x" "count_list (all_ids (subtasks task)) x = 1"
proof -
  have "0 < count_list (all_ids (subtasks task)) x" using assms(2) by (rule count_pos)
  with assms(1) show "task_id task \<noteq> x" "count_list (all_ids (subtasks task)) x = 1"
    by (auto simp: ids_of_sel split: if_splits)
qed

lemma update_absent:
  "taskId \<notin> set (all_ids tasks) \<Longrightarrow> updateTaskRecursive taskId updates tasks = tasks"
  "taskId \<notin> set (ids_of task) \<Longrightarrow> updateOne taskId updates task = task"
  by (induction taskId updates tasks and taskId updates task
      rule: updateTaskRecursive_updateOne.induct) auto

lemma updateOne_sel:
  "updateOne taskId updates task =
     (if task_id task = taskId then merge task updates
      else with_subtasks task (updateTaskRecursive taskId updates (subtasks task)))"
  by (cases task) auto

lemma update_map: "updateTaskRecursive taskId updates tasks = map (updateOne taskId updates) tasks"
  by (induction tasks) auto

lemma update_append:
  "updateTaskRecursive x u (xs @ ys) = updateTaskRecursive x u xs @ updateTaskRecursive x u ys"
  by (simp add: update_map)

lemma update_only_at:
  assumes "count_list (all_ids ts) x = 1" "i < length ts" "x \<in> set (ids_of (ts ! i))"
  shows "updateTaskRecursive x u ts = ts[i := updateOne x u (ts ! i)]"
proof -
  have split: "ts = take i ts @ ts ! i # drop (Suc i) ts"
    using assms(2) by (rule id_take_nth_drop)
  have "updateTaskRecursive x u (take i ts @ ts ! i # drop (Suc i) ts) =
      take i ts @ updateOne x u (ts ! i) # drop (Suc i) ts"
    using once_elsewhere(1,2)[OF assms] by (simp add: update_append update_absent)
  also have "\<dots> = ts[i := updateOne x u (ts ! i)]"
    using assms(2) by (simp add: upd_conv_take_nth_drop)
  finally show ?thesis using split by simp
qed

lemma update_at_path:
  "count_list (all_ids ts) (task_id a) = 1 \<Longrightarrow> task_at ts path = Some a \<Longrightarrow>
   updateTaskRecursive (task_id a) updates ts = replace_at ts path (merge a updates)"
proof (induction ts path rule: task_at.induct)
  case (1 ts)
  then show ?case by simp
next
  case (2 ts i)
  then have i: "i < length ts" and a: "a = ts ! i" by (auto split: if_splits)
  have "task_id a \<in> set (ids_of (ts ! i))" by (simp add: a ids_of_sel)
  from update_only_at[OF "2.prems"(1) i this] show ?case
    by (simp add: a updateOne_sel)
next
  case (3 ts i j js)
  then have i: "i < length ts" and sub: "task_at (subtasks (ts ! i)) (j # js) = Some a"
    by (auto split: if_splits)
  have mem: "task_id a \<in> set (all_ids (subtasks (ts ! i)))" by (rule task_at_ids[OF sub])
  then have mem': "task_id a \<in> set (ids_of (ts ! i))" by (simp add: ids_of_sel)
  have one: "count_list (ids_of (ts ! i)) (task_id a) = 1"
    by (rule once_elsewhere(3)[OF "3.prems"(1) i mem'])
  from update_only_at[OF "3.prems"(1) i mem'] "3.IH"[OF i once_inside(2)[OF one mem] sub]
    once_inside(1)[OF one mem]
  show ?case by (simp add: updateOne_sel)
qed

lemma delete_absent:
  "taskId \<notin> set (all_ids tasks) \<Longrightarrow> deleteTaskRecursive taskId tasks = tasks"
  "taskId \<notin> set (ids_of task) \<Longrightarrow> deleteKeep taskId task = task"
  by (induction taskId tasks and taskId task rule: deleteTaskRecursive_deleteKeep.induct)
     (auto simp: ids_of_sel)

lemma delete_gone:
  "taskId \<notin> set (all_ids (deleteTaskRecursive taskId tasks))"
  "task_id task \<noteq> taskId \<Longrightarrow> taskId \<notin> set (ids_of (deleteKeep taskId task))"
  by (induction taskId tasks and taskId task rule: deleteTaskRecursive_deleteKeep.induct)
     (auto simp: ids_of_sel)

lemma deleteKeep_sel:
  "deleteKeep taskId task = with_subtasks task (deleteTaskRecursive taskId (subtasks task))"
  by (cases task) auto

lemma delete_append:
  "deleteTaskRecursive taskId (xs @ ys) = deleteTaskRecursive taskId xs @ deleteTaskRecursive taskId ys"
  by (induction xs) auto

lemma delete_top:
  assumes "count_list (all_ids ts) x = 1" "i < length ts" "task_id (ts ! i) = x"
  shows "deleteTaskRecursive x ts = take i ts @ drop (Suc i) ts"
proof -
  have split: "ts = take i ts @ ts ! i # drop (Suc i) ts"
    using assms(2) by (rule id_take_nth_drop)
  have "x \<in> set (ids_of (ts ! i))" using assms(3) by (simp add: ids_of_sel)
  from once_elsewhere(1,2)[OF assms(1,2) this]
  have "deleteTaskRecursive x (take i ts @ ts ! i # drop (Suc i) ts)
      = take i ts @ drop (Suc i) ts"
    using assms(3) by (simp add: delete_append delete_absent)
  with split show ?thesis by simp
qed

lemma delete_only_at:
  assumes "count_list (all_ids ts) x = 1" "i < length ts" "x \<in> set (all_ids (subtasks (ts ! i)))"
  shows "deleteTaskRecursive x ts = ts[i := deleteKeep x (ts ! i)]"
proof -
  have split: "ts = take i ts @ ts ! i # drop (Suc i) ts"
    using assms(2) by (rule id_take_nth_drop)
  have mem: "x \<in> set (ids_of (ts ! i))" using assms(3) by (simp add: ids_of_sel)
  have ne: "task_id (ts ! i) \<noteq> x"
    by (rule once_inside(1)[OF once_elsewhere(3)[OF assms(1,2) mem] assms(3)])
  have "deleteTaskRecursive x (take i ts @ ts ! i # drop (Suc i) ts) =
      take i ts @ deleteKeep x (ts ! i) # drop (Suc i) ts"
    using once_elsewhere(1,2)[OF assms(1,2) mem] ne by (simp add: delete_append delete_absent)
  also have "\<dots> = ts[i := deleteKeep x (ts ! i)]"
    using assms(2) by (simp add: upd_conv_take_nth_drop)
  finally show ?thesis using split by simp
qed

lemma delete_at_path:
  "count_list (all_ids ts) (task_id a) = 1 \<Longrightarrow> task_at ts path = Some a \<Longrightarrow>
   deleteTaskRecursive (task_id a) ts = remove_at ts path"
proof (induction ts path rule: task_at.induct)
  case (1 ts)
  then show ?case by simp
next
  case (2 ts i)
  then have i: "i < length ts" and a: "ts ! i = a" by (auto split: if_splits)
  from delete_top[OF "2.prems"(1) i] a show ?case by simp
next
  case (3 ts i j js)
  then have i: "i < length ts" and sub: "task_at (subtasks (ts ! i)) (j # js) = Some a"
    by (auto split: if_splits)
  have mem: "task_id a \<in> set (all_ids (subtasks (ts ! i)))" by (rule task_at_ids[OF sub])
  then have mem': "task_id a \<in> set (ids_of (ts ! i))" by (simp add: ids_of_sel)
  have one: "count_list (ids_of (ts ! i)) (task_id a) = 1"
    by (rule once_elsewhere(3)[OF "3.prems"(1) i mem'])
  from delete_only_at[OF "3.prems"(1) i mem] "3.IH"[OF i once_inside(2)[OF one mem] sub]
  show ?case by (simp add: deleteKeep_sel)
qed

section \<open>updateTask and deleteTask\<close>

text \<open>
  Claim C2. When no task of the tree has id \<open>x\<close>, \<open>updateTask\<close> returns the tree
  unchanged. When a task has id \<open>x\<close> it sits at some position; when it is the only
  task with that id, the result is the tree with the task at that position replaced by
  its merge with the update, so every other task, at every level, and the order of
  every sequence stay as they were. In the merge each field that the update names has
  the update's value and each field that it does not name has the task's value, for
  all eight fields.
\<close>

theorem updateTask_frame:
  "(x \<notin> set (all_ids t) \<longrightarrow> updateTask x p t = t) \<and>
   (x \<in> set (all_ids t) \<longrightarrow> (\<exists>path a. task_at t path = Some a \<and> task_id a = x)) \<and>
   (count_list (all_ids t) x = 1 \<and> task_at t path = Some a \<and> task_id a = x \<longrightarrow>
      updateTask x p t = replace_at t path (merge a p)) \<and>
   task_id (merge a p) = (case u_id p of None \<Rightarrow> task_id a | Some v \<Rightarrow> v) \<and>
   title (merge a p) = (case u_title p of None \<Rightarrow> title a | Some v \<Rightarrow> v) \<and>
   completed (merge a p) = (case u_completed p of None \<Rightarrow> completed a | Some v \<Rightarrow> v) \<and>
   color (merge a p) = (case u_color p of None \<Rightarrow> color a | Some v \<Rightarrow> v) \<and>
   tags (merge a p) = (case u_tags p of None \<Rightarrow> tags a | Some v \<Rightarrow> v) \<and>
   reminder (merge a p) = (case u_reminder p of None \<Rightarrow> reminder a | Some v \<Rightarrow> v) \<and>
   subtasks (merge a p) = (case u_subtasks p of None \<Rightarrow> subtasks a | Some v \<Rightarrow> v) \<and>
   parentId (merge a p) = (case u_parentId p of None \<Rightarrow> parentId a | Some v \<Rightarrow> v)"
proof -
  have frame: "(x \<notin> set (all_ids t) \<longrightarrow> updateTask x p t = t) \<and>
   (x \<in> set (all_ids t) \<longrightarrow> (\<exists>path a. task_at t path = Some a \<and> task_id a = x)) \<and>
   (count_list (all_ids t) x = 1 \<and> task_at t path = Some a \<and> task_id a = x \<longrightarrow>
      updateTask x p t = replace_at t path (merge a p))"
    using update_absent(1)[of x t p] id_has_path[of x t] update_at_path[of t a path p]
    by (auto simp: updateTask_def)
  have fields: "task_id (merge a p) = (case u_id p of None \<Rightarrow> task_id a | Some v \<Rightarrow> v) \<and>
   title (merge a p) = (case u_title p of None \<Rightarrow> title a | Some v \<Rightarrow> v) \<and>
   completed (merge a p) = (case u_completed p of None \<Rightarrow> completed a | Some v \<Rightarrow> v) \<and>
   color (merge a p) = (case u_color p of None \<Rightarrow> color a | Some v \<Rightarrow> v) \<and>
   tags (merge a p) = (case u_tags p of None \<Rightarrow> tags a | Some v \<Rightarrow> v) \<and>
   reminder (merge a p) = (case u_reminder p of None \<Rightarrow> reminder a | Some v \<Rightarrow> v) \<and>
   subtasks (merge a p) = (case u_subtasks p of None \<Rightarrow> subtasks a | Some v \<Rightarrow> v) \<and>
   parentId (merge a p) = (case u_parentId p of None \<Rightarrow> parentId a | Some v \<Rightarrow> v)"
    by (cases a) (simp split: option.split)
  from frame fields show ?thesis by (simp only: simp_thms)
qed

theorem updateTask_frame_witness:
  "''9'' \<notin> set (all_ids ex_tree) \<and> updateTask ''9'' ex_done ex_tree = ex_tree \<and>
   ''2'' \<in> set (all_ids ex_tree) \<and> count_list (all_ids ex_tree) ''2'' = 1 \<and>
   task_at ex_tree [0, 0] = Some ex_sub \<and> task_id ex_sub = ''2'' \<and>
   updateTask ''2'' ex_done ex_tree =
     [Task ''1'' ''Buy milk'' False ''bg-card'' [''errand''] None
        [Task ''2'' ''2% milk'' True ''bg-card'' [] None [] (Some ''1'')] None,
      Task ''3'' ''Call home'' False ''bg-blue-50'' [] (Some (Time 1000)) [] None] \<and>
   count_list (all_ids ex_tree) ''3'' = 1 \<and> task_at ex_tree [1] = Some (ex_tree ! 1) \<and>
   updateTask ''3'' ex_edit ex_tree =
     [Task ''1'' ''Buy milk'' False ''bg-card'' [''errand''] None [ex_sub] None,
      Task ''3'' ''Call mum'' False ''bg-red-50'' [''family''] None [] None]"
  using updateTask_frame[of "''9''" ex_tree ex_done "[0, 0]" ex_sub]
        updateTask_frame[of "''2''" ex_tree ex_done "[0, 0]" ex_sub]
        updateTask_frame[of "''3''" ex_tree ex_edit "[1]" "ex_tree ! 1"]
  by (simp add: ex_tree_def ex_sub_def ex_done_def ex_edit_def)

text \<open>
  Claim C3, as stated, fails: deleting a top-level task takes its subtasks out of the
  tree with it, so a task other than the one bearing the id is not preserved. Here
  task 2, a subtask of task 1, is gone after task 1 is deleted.
\<close>

theorem deleteTask_cascades:
  "count_list (all_ids ex_tree) ''1'' = 1 \<and> ''2'' \<in> set (all_ids ex_tree) \<and>
   ''2'' \<notin> set (all_ids (deleteTask ''1'' ex_tree)) \<and>
   deleteTask ''1'' ex_tree =
     [Task ''3'' ''Call home'' False ''bg-blue-50'' [] (Some (Time 1000)) [] None]"
  by (simp add: ex_tree_def ex_sub_def deleteTask_def)

text \<open>
  Claim C3, amended. When no task of the tree has id \<open>x\<close>, \<open>deleteTask\<close> returns
  the tree unchanged. After \<open>deleteTask\<close> no task bears id \<open>x\<close>. When a task has id
  \<open>x\<close> it sits at some position, top-level or nested; when it is the only task with
  that id, the result is the tree with the task at that position removed from its
  sequence, its own subtasks with it: every task outside the removed one, and the order
  of every sequence, stay as they were.
\<close>

theorem deleteTask_subtree:
  "(x \<notin> set (all_ids t) \<longrightarrow> deleteTask x t = t) \<and>
   x \<notin> set (all_ids (deleteTask x t)) \<and>
   (x \<in> set (all_ids t) \<longrightarrow> (\<exists>path a. task_at t path = Some a \<and> task_id a = x)) \<and>
   (count_list (all_ids t) x = 1 \<and> task_at t path = Some a \<and> task_id a = x \<longrightarrow>
      deleteTask x t = remove_at t path)"
  using delete_absent(1)[of x t] delete_gone(1)[of x t] id_has_path[of x t]
    delete_at_path[of t a path]
  by (auto simp: deleteTask_def)

theorem deleteTask_subtree_witness:
  "''9'' \<notin> set (all_ids ex_tree) \<and> deleteTask ''9'' ex_tree = ex_tree \<and>
   ''2'' \<in> set (all_ids ex_tree) \<and> count_list (all_ids ex_tree) ''2'' = 1 \<and>
   task_at ex_tree [0, 0] = Some ex_sub \<and> task_id ex_sub = ''2'' \<and>
   deleteTask ''2'' ex_tree =
     [Task ''1'' ''Buy milk'' False ''bg-card'' [''errand''] None [] None,
      Task ''3'' ''Call home'' False ''bg-blue-50'' [] (Some (Time 1000)) [] None] \<and>
   count_list (all_ids ex_tree) ''1'' = 1 \<and> task_at ex_tree [0] = Some (ex_tree ! 0) \<and>
   deleteTask ''1'' ex_tree = remove_at ex_tree [0]"
  using deleteTask_subtree[of "''9''" ex_tree "[0, 0]" ex_sub]
        deleteTask_subtree[of "''2''" ex_tree "[0, 0]" ex_sub]
        deleteTask_subtree[of "''1''" ex_tree "[0]" "ex_tree ! 0"]
  by (simp add: ex_tree_def ex_sub_def)

section \<open>Decimal strings\<close>

lemma small_digit: "d < 10 \<Longrightarrow> d \<in> {0, 1, 2, 3, 4, 5, 6, 7, 8, 9 :: nat}"
  by auto

lemma digit_table_eval:
  "digit_table = [(CHR ''0'', 0), (CHR ''1'', 1), (CHR ''2'', 2), (CHR ''3'', 3), (CHR ''4'', 4),
     (CHR ''5'', 5), (CHR ''6'', 6), (CHR ''7'', 7), (CHR ''8'', 8), (CHR ''9'', 9),
     (CHR ''a'', 10), (CHR ''b'', 11), (CHR ''c'', 12), (CHR ''d'', 13), (CHR ''e'', 14),
     (CHR ''f'', 15), (CHR ''A'', 10), (CHR ''B'', 11), (CHR ''C'', 12), (CHR ''D'', 13),
     (CHR ''E'', 14), (CHR ''F'', 15)]"
  by (simp add: digit_table_def upt_rec)

lemma digit_val_digit [simp]: "d < 10 \<Longrightarrow> digit_val 10 (digit_char d) = Some d"
  using small_digit[of d] by (auto simp: digit_val_def digit_char_def digit_table_eval)

lemma digit_char_plain:
  "d < 10 \<Longrightarrow> \<not> is_ws (digit_char d) \<and> digit_char d \<noteq> CHR ''-'' \<and> digit_char d \<noteq> CHR ''+''
     \<and> digit_char d \<noteq> CHR ''x'' \<and> digit_char d \<noteq> CHR ''X''"
  using small_digit[of d] by (auto simp: digit_char_def is_ws_def)

lemma parse_digits_digits:
  "parse_digits 10 acc seen (digits n @ rest) =
   parse_digits 10 (acc * 10 ^ length (digits n) + n) True rest"
proof (induction n arbitrary: acc seen rest rule: digits.induct)
  case (1 n)
  show ?case
  proof (cases "n < 10")
    case True
    then show ?thesis by (simp add: digits.simps[of n])
  next
    case False
    have "parse_digits 10 acc seen (digits n @ rest)
        = parse_digits 10 acc seen (digits (n div 10) @ (digit_char (n mod 10) # rest))"
      using False by (simp add: digits.simps[of n])
    also have "\<dots> = parse_digits 10 (acc * 10 ^ length (digits (n div 10)) + n div 10) True
        (digit_char (n mod 10) # rest)"
      by (rule "1.IH"[OF False])
    also have "\<dots> = parse_digits 10 (acc * 10 ^ length (digits n) + n) True rest"
      using False by (simp add: digits.simps[of n] algebra_simps)
    finally show ?thesis .
  qed
qed

lemma digits_chars: "c \<in> set (digits n) \<Longrightarrow> \<exists>d<10. c = digit_char d"
proof (induction n rule: digits.induct)
  case (1 n)
  show ?case
  proof (cases "n < 10")
    case True
    with "1.prems" show ?thesis by (auto simp: digits.simps[of n])
  next
    case False
    with "1.prems" have "c \<in> set (digits (n div 10)) \<or> c = digit_char (n mod 10)"
      by (auto simp: digits.simps[of n])
    then show ?thesis
    proof
      assume "c \<in> set (digits (n div 10))"
      then show ?thesis by (rule "1.IH"[OF False])
    next
      assume "c = digit_char (n mod 10)"
      moreover have "n mod 10 < 10" by simp
      ultimately show ?thesis by blast
    qed
  qed
qed

lemma digits_nonempty: "digits n \<noteq> []"
  by (cases "n < 10") (simp_all add: digits.simps[of n])

lemma digits_hd_plain:
  obtains d ds where "digits n = digit_char d # ds" "d < 10"
proof -
  obtain c cs where cs: "digits n = c # cs" using digits_nonempty[of n] by (cases "digits n") auto
  then have "c \<in> set (digits n)" by simp
  then obtain d where "d < 10" "c = digit_char d" using digits_chars by blast
  with cs that show ?thesis by blast
qed

lemma digits_not_hex: "take 2 (digits n) \<noteq> ''0x'' \<and> take 2 (digits n) \<noteq> ''0X''"
proof (cases "digits n")
  case Nil
  then show ?thesis by simp
next
  case (Cons c cs)
  show ?thesis
  proof (cases cs)
    case Nil
    with Cons show ?thesis by simp
  next
    case (Cons c' cs')
    with \<open>digits n = c # cs\<close> have "c' \<in> set (digits n)" by simp
    then obtain d where "d < 10" "c' = digit_char d" using digits_chars by blast
    with digit_char_plain[of d] Cons \<open>digits n = c # cs\<close> show ?thesis by simp
  qed
qed

lemma parse_digits_all: "parse_digits 10 0 False (digits n) = Some n"
  using parse_digits_digits[of 0 False n "[]"] by simp

lemma parseInt_digits: "parseInt (digits n) = Some (int n)"
proof -
  obtain d ds where h: "digits n = digit_char d # ds" "d < 10" by (rule digits_hd_plain)
  from digit_char_plain[OF h(2)] h(1)
  have "dropWhile is_ws (digits n) = digits n" "take 1 (digits n) \<noteq> ''-''" "take 1 (digits n) \<noteq> ''+''"
    by auto
  with digits_not_hex[of n] show ?thesis
    by (simp add: parseInt_def Let_def parse_digits_all)
qed

lemma parseInt_minus_digits: "parseInt (CHR ''-'' # digits n) = Some (- int n)"
proof -
  have "\<not> is_ws CHR ''-''" by (simp add: is_ws_def)
  with digits_not_hex[of n] show ?thesis
    by (simp add: parseInt_def Let_def parse_digits_all)
qed

lemma parseInt_toString: "parseInt (toString n) = Some n"
proof (cases "n < 0")
  case True
  then have "toString n = CHR ''-'' # digits (nat (- n))" by (simp only: toString_def if_True)
  then have "parseInt (toString n) = Some (- int (nat (- n)))" by (simp only: parseInt_minus_digits)
  with True show ?thesis by simp
next
  case False
  then have "toString n = digits (nat n)" by (simp only: toString_def if_False)
  then have "parseInt (toString n) = Some (int (nat n))" by (simp only: parseInt_digits)
  with False show ?thesis by simp
qed

lemma toString_inj: "toString m = toString n \<Longrightarrow> m = n"
  by (metis option.inject parseInt_toString)

lemma toString_small: "toString 5 = ''5''" "toString 7 = ''7''" "toString 3 = ''3''"
  by (simp_all add: toString_def digits.simps digit_char_def)

section \<open>addTask and the invariants along a run\<close>

lemma height1_sel: "height1 task = Suc (height (subtasks task))"
  by (cases task) simp

lemma height_le: "height ts \<le> n \<longleftrightarrow> (\<forall>t\<in>set ts. height1 t \<le> n)"
  by (induction ts) auto

lemma height_0: "height ts = 0 \<longleftrightarrow> ts = []"
  by (cases ts) (auto simp: height1_sel)

lemma single_level_height: "single_level ts \<longleftrightarrow> height ts \<le> 2"
proof -
  have "height ts \<le> 2 \<longleftrightarrow> (\<forall>t\<in>set ts. \<forall>s\<in>set (subtasks t). height (subtasks s) \<le> 0)"
    by (simp add: height_le height1_sel numeral_2_eq_2)
  then show ?thesis by (simp add: single_level_def list_all_iff height_0)
qed

lemma update_keeps_ids:
  "u_id updates = None \<Longrightarrow> u_subtasks updates = None \<Longrightarrow>
     all_ids (updateTaskRecursive taskId updates tasks) = all_ids tasks"
  "u_id updates = None \<Longrightarrow> u_subtasks updates = None \<Longrightarrow>
     ids_of (updateOne taskId updates task) = ids_of task"
  by (induction taskId updates tasks and taskId updates task
      rule: updateTaskRecursive_updateOne.induct) auto

lemma update_keeps_height:
  "u_subtasks updates = None \<Longrightarrow> height (updateTaskRecursive taskId updates tasks) = height tasks"
  "u_subtasks updates = None \<Longrightarrow> height1 (updateOne taskId updates task) = height1 task"
  by (induction taskId updates tasks and taskId updates task
      rule: updateTaskRecursive_updateOne.induct) auto

lemma delete_ids_subset:
  "set (all_ids (deleteTaskRecursive taskId tasks)) \<subseteq> set (all_ids tasks)"
  "set (ids_of (deleteKeep taskId task)) \<subseteq> set (ids_of task)"
  by (induction taskId tasks and taskId task rule: deleteTaskRecursive_deleteKeep.induct) auto

lemma delete_keeps_distinct:
  "distinct (all_ids tasks) \<Longrightarrow> distinct (all_ids (deleteTaskRecursive taskId tasks))"
  "distinct (ids_of task) \<Longrightarrow> distinct (ids_of (deleteKeep taskId task))"
proof (induction taskId tasks and taskId task rule: deleteTaskRecursive_deleteKeep.induct)
  case (1 taskId)
  then show ?case by simp
next
  case (2 taskId task tasks)
  then show ?case
    using delete_ids_subset(1)[of taskId tasks] delete_ids_subset(2)[of taskId task]
    by (auto simp: ids_of_sel)
next
  case (3 taskId i t c col tg r subs p)
  then show ?case using delete_ids_subset(1)[of taskId subs] by auto
qed

lemma delete_height:
  "height (deleteTaskRecursive taskId tasks) \<le> height tasks"
  "height1 (deleteKeep taskId task) \<le> height1 task"
  by (induction taskId tasks and taskId task rule: deleteTaskRecursive_deleteKeep.induct) auto

lemma ids_of_newTask [simp]: "ids_of (newTask d p now) = [toString now]"
  by (simp add: newTask_def)

lemma height1_newTask [simp]: "height1 (newTask d p now) = 1"
  by (simp add: newTask_def)

lemma height_append [simp]: "height (xs @ ys) = max (height xs) (height ys)"
  by (induction xs) auto

lemma ids_of_with_subtasks [simp]: "ids_of (with_subtasks task s) = task_id task # all_ids s"
  by (cases task) simp

lemma height1_with_subtasks [simp]: "height1 (with_subtasks task s) = Suc (height s)"
  by (cases task) simp

lemma top_id_in_ids: "task \<in> set tasks \<Longrightarrow> task_id task \<in> set (all_ids tasks)"
  by (induction tasks) (auto simp: ids_of_sel)

lemma addTask_attach:
  "pid \<noteq> [] \<Longrightarrow> addTask d (Some pid) now prev = map (attach pid (newTask d (Some pid) now)) prev"
  by (auto simp: addTask_def attach_def)

lemma attach_absent: "pid \<notin> set (map task_id tasks) \<Longrightarrow> map (attach pid n) tasks = tasks"
  by (induction tasks) (auto simp: attach_def)

lemma attach_only_at:
  assumes "distinct (map task_id ts)" "i < length ts" "task_id (ts ! i) = pid"
  shows "map (attach pid n) ts = ts[i := with_subtasks (ts ! i) (subtasks (ts ! i) @ [n])]"
proof (rule nth_equalityI)
  show "length (map (attach pid n) ts) = length (ts[i := with_subtasks (ts ! i) (subtasks (ts ! i) @ [n])])"
    by simp
next
  fix j assume "j < length (map (attach pid n) ts)"
  then have j: "j < length ts" by simp
  show "map (attach pid n) ts ! j = ts[i := with_subtasks (ts ! i) (subtasks (ts ! i) @ [n])] ! j"
  proof (cases "j = i")
    case True
    with j assms(3) show ?thesis by (simp add: attach_def)
  next
    case False
    with assms j have "task_id (ts ! j) \<noteq> pid"
      by (metis distinct_conv_nth length_map nth_map)
    with j False show ?thesis by (simp add: attach_def)
  qed
qed

lemma attach_ids:
  assumes "ids_of n = [new]"
  shows "set (all_ids (map (attach pid n) tasks)) \<subseteq> insert new (set (all_ids tasks))"
  using assms by (induction tasks) (auto simp: attach_def ids_of_sel)

lemma attach_distinct:
  assumes "ids_of n = [new]" "new \<notin> set (all_ids tasks)" "distinct (all_ids tasks)"
  shows "distinct (all_ids (map (attach pid n) tasks))"
  using assms(2,3)
proof (induction tasks)
  case Nil
  then show ?case by simp
next
  case (Cons a tasks)
  show ?case
  proof (cases "task_id a = pid")
    case True
    with Cons.prems have "pid \<notin> set (all_ids tasks)" by (auto simp: ids_of_sel)
    then have "pid \<notin> set (map task_id tasks)" using top_id_in_ids by auto
    then have "map (attach pid n) tasks = tasks" by (rule attach_absent)
    moreover have "attach pid n a = with_subtasks a (subtasks a @ [n])"
      using True by (simp add: attach_def)
    ultimately have "all_ids (map (attach pid n) (a # tasks))
        = task_id a # all_ids (subtasks a) @ new # all_ids tasks"
      using assms(1) by simp
    with Cons.prems show ?thesis by (auto simp: ids_of_sel)
  next
    case False
    then have "attach pid n a = a" by (simp add: attach_def)
    then have "all_ids (map (attach pid n) (a # tasks))
        = ids_of a @ all_ids (map (attach pid n) tasks)" by simp
    moreover have "distinct (all_ids (map (attach pid n) tasks))"
      using Cons by simp
    moreover have "set (ids_of a) \<inter> set (all_ids (map (attach pid n) tasks)) = {}"
      using Cons.prems attach_ids[OF assms(1), of pid tasks] by auto
    ultimately show ?thesis using Cons.prems by simp
  qed
qed

lemma attach_height:
  assumes "height1 n = 1" "height tasks \<le> 2"
  shows "height (map (attach pid n) tasks) \<le> 2"
  using assms(2)
proof (induction tasks)
  case Nil
  then show ?case by simp
next
  case (Cons a tasks)
  then have "height (subtasks a) \<le> 1" by (simp add: height1_sel)
  with Cons assms(1) show ?case by (auto simp: attach_def)
qed

lemma step_add_inv:
  assumes "tree_inv seen tasks" "now \<notin> seen"
  shows "tree_inv (insert now seen) (addTask d p now tasks)"
proof -
  have fresh: "toString now \<notin> set (all_ids tasks)"
  proof
    assume "toString now \<in> set (all_ids tasks)"
    with assms(1) obtain m where "m \<in> seen" "toString now = toString m"
      by (auto simp: tree_inv_def)
    with toString_inj[of now m] assms(2) show False by simp
  qed
  show ?thesis
  proof (cases "p \<noteq> None \<and> p \<noteq> Some []")
    case False
    then have "addTask d p now tasks = tasks @ [newTask d p now]" by (auto simp: addTask_def)
    with assms(1) fresh show ?thesis by (auto simp: tree_inv_def)
  next
    case True
    then obtain pid where pid: "p = Some pid" "pid \<noteq> []" by auto
    let ?n = "newTask d (Some pid) now"
    have eq: "addTask d p now tasks = map (attach pid ?n) tasks"
      using pid by (simp add: addTask_attach)
    have i: "ids_of ?n = [toString now]" by simp
    from assms(1) have "distinct (all_ids tasks)" "height tasks \<le> 2" by (auto simp: tree_inv_def)
    with attach_distinct[OF i fresh, of pid] attach_height[of ?n tasks pid]
      attach_ids[OF i, of pid tasks] assms(1)
    show ?thesis unfolding eq tree_inv_def by auto
  qed
qed

lemma step_update_inv:
  assumes "tree_inv seen tasks" "u_id u = None" "u_subtasks u = None"
  shows "tree_inv seen (updateTask x u tasks)"
  using assms by (simp add: tree_inv_def updateTask_def update_keeps_ids update_keeps_height)

lemma step_delete_inv:
  assumes "tree_inv seen tasks"
  shows "tree_inv seen (deleteTask x tasks)"
  using assms delete_ids_subset(1)[of x tasks] delete_height(1)[of x tasks]
  by (auto simp: tree_inv_def deleteTask_def delete_keeps_distinct)

lemma run_inv:
  "tree_inv seen tasks \<Longrightarrow> distinct (clocks ops) \<Longrightarrow> list_all keeps_shape ops \<Longrightarrow>
   (\<forall>c\<in>set (clocks ops). c \<notin> seen) \<Longrightarrow>
   tree_inv (seen \<union> set (clocks ops)) (run ops tasks)"
proof (induction ops arbitrary: seen tasks)
  case Nil
  then show ?case by simp
next
  case (Cons op ops)
  show ?case
  proof (cases op)
    case (Add d p now)
    with Cons.prems have now: "now \<notin> seen" by simp
    have inv: "tree_inv (insert now seen) (step op tasks)"
      using step_add_inv[OF Cons.prems(1) now] Add by simp
    have "\<forall>c\<in>set (clocks ops). c \<notin> insert now seen"
      using Cons.prems(2,4) Add by auto
    with Cons.IH[OF inv] Cons.prems(2,3) Add show ?thesis by simp
  next
    case (Update x u)
    then have inv: "tree_inv seen (step op tasks)"
      using step_update_inv[OF Cons.prems(1)] Cons.prems(3) by simp
    from Cons.IH[OF inv] Cons.prems Update show ?thesis by simp
  next
    case (Delete x)
    then have inv: "tree_inv seen (step op tasks)"
      using step_delete_inv[OF Cons.prems(1)] by simp
    from Cons.IH[OF inv] Cons.prems Delete show ?thesis by simp
  qed
qed

lemma run_levels:
  "height tasks \<le> 2 \<Longrightarrow> list_all keeps_subtasks ops \<Longrightarrow> height (run ops tasks) \<le> 2"
proof (induction ops arbitrary: tasks)
  case Nil
  then show ?case by simp
next
  case (Cons op ops)
  have "height (step op tasks) \<le> 2"
  proof (cases op)
    case (Add d p now)
    show ?thesis
    proof (cases "p \<noteq> None \<and> p \<noteq> Some []")
      case True
      then obtain pid where pid: "p = Some pid" "pid \<noteq> []" by auto
      show ?thesis unfolding Add step.simps pid(1) addTask_attach[OF pid(2)]
        by (rule attach_height) (simp_all add: Cons.prems)
    next
      case False
      then have "addTask d p now tasks = tasks @ [newTask d p now]" by (auto simp: addTask_def)
      with Add Cons.prems(1) show ?thesis by simp
    qed
  next
    case (Update x u)
    with Cons.prems show ?thesis by (simp add: updateTask_def update_keeps_height)
  next
    case (Delete x)
    with Cons.prems(1) delete_height(1)[of x tasks] show ?thesis by (simp add: deleteTask_def)
  qed
  with Cons show ?case by simp
qed

lemma run_height:
  "height tasks \<le> 2 \<Longrightarrow> list_all keeps_shape ops \<Longrightarrow> height (run ops tasks) \<le> 2"
proof (induction ops arbitrary: tasks)
  case Nil
  then show ?case by simp
next
  case (Cons op ops)
  have "height (step op tasks) \<le> 2"
  proof (cases op)
    case (Add d p now)
    show ?thesis
    proof (cases "p \<noteq> None \<and> p \<noteq> Some []")
      case True
      then obtain pid where pid: "p = Some pid" "pid \<noteq> []" by auto
      show ?thesis unfolding Add step.simps pid(1) addTask_attach[OF pid(2)]
        by (rule attach_height) (simp_all add: Cons.prems)
    next
      case False
      then have "addTask d p now tasks = tasks @ [newTask d p now]" by (auto simp: addTask_def)
      with Add Cons.prems(1) show ?thesis by simp
    qed
  next
    case (Update x u)
    with Cons.prems show ?thesis by (simp add: updateTask_def update_keeps_height)
  next
    case (Delete x)
    with Cons.prems(1) delete_height(1)[of x tasks] show ?thesis by (simp add: deleteTask_def)
  qed
  with Cons show ?case by simp
qed

text \<open>
  Claim C4, as stated, fails in two places. The id is the clock reading, so it is not
  fresh when the clock has not moved: two adds at reading 5 make two tasks with the id
  \<^verbatim>\<open>5\<close>. And the empty string as
  \<^verbatim>\<open>parentId\<close> matches no top-level task, yet the tree changes: the test
  \<^verbatim>\<open>if (parentId)\<close> sends it to the top-level branch.
\<close>

theorem addTask_not_fresh_or_dropped:
  "map task_id (addTask ex_data None 5 (addTask ex_data None 5 [])) = [''5'', ''5''] \<and>
   '''' \<notin> set (map task_id ex_tree) \<and>
   addTask ex_data (Some '''') 5 ex_tree = ex_tree @ [newTask ex_data (Some '''') 5] \<and>
   addTask ex_data (Some '''') 5 ex_tree \<noteq> ex_tree"
  by (simp add: addTask_def ex_tree_def ex_sub_def newTask_def toString_small)

text \<open>
  Claim C4, amended. With no \<^verbatim>\<open>parentId\<close>, or the empty string, \<open>addTask\<close> appends
  the new task to the end of the top-level sequence. With a non-empty \<^verbatim>\<open>parentId\<close>
  that is the id of the top-level task at index \<open>i\<close> (top-level ids distinct), it appends
  the new task to the end of that task's subtasks and changes nothing else. With a
  non-empty \<^verbatim>\<open>parentId\<close> that no top-level task has, the tree is unchanged. The new
  task has the decimal string of the clock reading as id, \<^verbatim>\<open>completed = false\<close>, no
  subtasks, the \<^verbatim>\<open>parentId\<close> passed, and the other fields from the data. Its id is
  fresh when the ids of the tree come from clock readings other than this one.
\<close>

theorem addTask_appends:
  "(p = None \<or> p = Some [] \<longrightarrow> addTask d p now t = t @ [newTask d p now]) \<and>
   (pid \<noteq> [] \<and> distinct (map task_id t) \<and> i < length t \<and> task_id (t ! i) = pid \<longrightarrow>
      addTask d (Some pid) now t =
        t[i := with_subtasks (t ! i) (subtasks (t ! i) @ [newTask d (Some pid) now])]) \<and>
   (pid \<noteq> [] \<and> pid \<notin> set (map task_id t) \<longrightarrow> addTask d (Some pid) now t = t) \<and>
   newTask d p now =
     Task (toString now) (td_title d) False (td_color d) (td_tags d) (td_reminder d) [] p \<and>
   (set (all_ids t) \<subseteq> toString ` seen \<and> now \<notin> seen \<longrightarrow>
      task_id (newTask d p now) \<notin> set (all_ids t))"
proof (intro conjI impI)
  assume "p = None \<or> p = Some []"
  then show "addTask d p now t = t @ [newTask d p now]" by (auto simp: addTask_def)
next
  assume a: "pid \<noteq> [] \<and> distinct (map task_id t) \<and> i < length t \<and> task_id (t ! i) = pid"
  then have "addTask d (Some pid) now t = map (attach pid (newTask d (Some pid) now)) t"
    by (simp add: addTask_attach)
  with a show "addTask d (Some pid) now t =
        t[i := with_subtasks (t ! i) (subtasks (t ! i) @ [newTask d (Some pid) now])]"
    by (simp add: attach_only_at)
next
  assume "pid \<noteq> [] \<and> pid \<notin> set (map task_id t)"
  then show "addTask d (Some pid) now t = t"
    by (simp add: addTask_attach attach_absent)
next
  show "newTask d p now =
     Task (toString now) (td_title d) False (td_color d) (td_tags d) (td_reminder d) [] p"
    by (simp add: newTask_def)
next
  assume a: "set (all_ids t) \<subseteq> toString ` seen \<and> now \<notin> seen"
  show "task_id (newTask d p now) \<notin> set (all_ids t)"
  proof
    assume "task_id (newTask d p now) \<in> set (all_ids t)"
    then have "toString now \<in> toString ` seen" using a by (auto simp: newTask_def)
    then obtain m where "m \<in> seen" "toString now = toString m" by auto
    with toString_inj[of now m] a show False by simp
  qed
qed

theorem addTask_appends_witness:
  "addTask ex_data None 5 ex_tree = ex_tree @ [newTask ex_data None 5] \<and>
   ''1'' \<noteq> [] \<and> distinct (map task_id ex_tree) \<and> 0 < length ex_tree \<and> task_id (ex_tree ! 0) = ''1'' \<and>
   addTask ex_data (Some ''1'') 5 ex_tree =
     [Task ''1'' ''Buy milk'' False ''bg-card'' [''errand''] None
        [ex_sub, Task ''5'' ''Buy milk'' False ''bg-card'' [''errand''] None [] (Some ''1'')] None,
      Task ''3'' ''Call home'' False ''bg-blue-50'' [] (Some (Time 1000)) [] None] \<and>
   ''2'' \<noteq> [] \<and> ''2'' \<notin> set (map task_id ex_tree) \<and> addTask ex_data (Some ''2'') 5 ex_tree = ex_tree \<and>
   set (all_ids ex_tree) \<subseteq> toString ` {1, 2, 3} \<and> 5 \<notin> {1, 2, 3 :: int} \<and>
   task_id (newTask ex_data None 5) \<notin> set (all_ids ex_tree)"
  using addTask_appends[of None ex_data 5 ex_tree "''1''" 0 "{1, 2, 3}"]
        addTask_appends[of None ex_data 5 ex_tree "''2''" 0 "{1, 2, 3}"]
  by (simp add: ex_tree_def ex_sub_def ex_data_def newTask_def toString_small toString_def
        digits.simps digit_char_def)

text \<open>
  Claim C5, as stated, fails: two adds that read the same clock value give two tasks
  the same id. The type of \<open>updateTask\<close> also admits an update that names \<^verbatim>\<open>id\<close>,
  which can repeat an id, and one that names \<^verbatim>\<open>subtasks\<close>, which can repeat an id and
  can put subtasks under a subtask (no caller in the components passes either).
\<close>

theorem same_tick_collision:
  "all_ids (run [Add ex_data None 5, Add ex_data None 5] []) = [''5'', ''5''] \<and>
   \<not> distinct (all_ids (run [Add ex_data None 5, Add ex_data None 5] [])) \<and>
   all_ids (run [Add ex_data None 5, Add ex_data None 7, Update ''7'' ex_rename] []) = [''5'', ''5''] \<and>
   all_ids (run [Add ex_data None 5, Add ex_data None 7, Update ''5'' ex_nest, Update ''7'' ex_nest] [])
     = [''5'', ''2'', ''7'', ''2''] \<and>
   \<not> single_level (run [Add ex_data None 5, Add ex_data (Some ''5'') 7, Update ''7'' ex_nest] [])"
  by (simp add: addTask_def newTask_def toString_small updateTask_def ex_rename_def ex_nest_def
        single_level_def ex_sub_def)

text \<open>
  Claim C5, amended. Starting from the empty tree, after any sequence of adds, updates
  and deletes in which no update names the \<^verbatim>\<open>subtasks\<close> field, no entry of a subtasks
  sequence has subtasks of its own; and when moreover the clock readings of the adds are
  pairwise distinct (in any order) and no update names the \<^verbatim>\<open>id\<close> field, all ids of
  the tree are distinct.
\<close>

theorem reachable_invariants:
  "(list_all keeps_subtasks ops \<longrightarrow> single_level (run ops [])) \<and>
   (distinct (clocks ops) \<and> list_all keeps_shape ops \<longrightarrow> distinct (all_ids (run ops [])))"
proof (intro conjI impI)
  assume "list_all keeps_subtasks ops"
  then have "height (run ops []) \<le> 2" by (intro run_levels) simp_all
  then show "single_level (run ops [])" by (simp add: single_level_height)
next
  assume a: "distinct (clocks ops) \<and> list_all keeps_shape ops"
  have "tree_inv {} []" by (simp add: tree_inv_def)
  from run_inv[OF this] a have "tree_inv ({} \<union> set (clocks ops)) (run ops [])" by simp
  then show "distinct (all_ids (run ops []))" by (simp add: tree_inv_def)
qed

theorem reachable_invariants_witness:
  "list_all keeps_subtasks
     [Add ex_data None 7, Add ex_data (Some ''7'') 5, Update ''5'' ex_rename, Delete ''9''] \<and>
   single_level
     (run [Add ex_data None 7, Add ex_data (Some ''7'') 5, Update ''5'' ex_rename, Delete ''9''] []) \<and>
   distinct (clocks [Add ex_data None 7, Add ex_data (Some ''7'') 5, Update ''5'' ex_done, Delete ''9'']) \<and>
   list_all keeps_shape
     [Add ex_data None 7, Add ex_data (Some ''7'') 5, Update ''5'' ex_done, Delete ''9''] \<and>
   all_ids (run [Add ex_data None 7, Add ex_data (Some ''7'') 5, Update ''5'' ex_done, Delete ''9''] [])
     = [''7'', ''5''] \<and>
   distinct
     (all_ids (run [Add ex_data None 7, Add ex_data (Some ''7'') 5, Update ''5'' ex_done, Delete ''9''] []))"
  using reachable_invariants
          [of "[Add ex_data None 7, Add ex_data (Some ''7'') 5, Update ''5'' ex_rename, Delete ''9'']"]
        reachable_invariants
          [of "[Add ex_data None 7, Add ex_data (Some ''7'') 5, Update ''5'' ex_done, Delete ''9'']"]
  by (simp add: ex_done_def ex_rename_def ex_data_def addTask_def newTask_def toString_small
        updateTask_def deleteTask_def single_level_def)

section \<open>The derived view\<close>

lemma set_insert_sorted [simp]: "set (insert_sorted cmp x ys) = insert x (set ys)"
  by (induction ys) auto

lemma set_sort_with [simp]: "set (sort_with cmp xs) = set xs"
  by (induction xs) auto

lemma mset_insert_sorted [simp]: "mset (insert_sorted cmp x ys) = add_mset x (mset ys)"
  by (induction ys) auto

lemma mset_sort_with [simp]: "mset (sort_with cmp xs) = mset xs"
  by (induction xs) auto

lemma insert_sorted_key:
  "\<forall>y\<in>set ys. (cmp x y \<le> 0) = (f x \<le> f y) \<Longrightarrow> insert_sorted cmp x ys = insort_key f x ys"
  by (induction ys) auto

lemma sort_with_key:
  "\<forall>a\<in>set xs. \<forall>b\<in>set xs. (cmp a b \<le> 0) = (f a \<le> f b) \<Longrightarrow>
   sort_with cmp xs = sort_key f xs"
proof (induction xs)
  case Nil
  then show ?case by simp
next
  case (Cons x xs)
  then have "sort_with cmp xs = sort_key f xs" by simp
  moreover have "\<forall>y\<in>set (sort_key f xs). (cmp x y \<le> 0) = (f x \<le> f y)"
    using Cons.prems by simp
  ultimately show ?case by (simp add: insert_sorted_key)
qed

lemma sort_with_sorted:
  "sorted_wrt (\<lambda>a b. cmp a b \<le> 0) xs \<Longrightarrow> sort_with cmp xs = xs"
proof (induction xs)
  case Nil
  then show ?case by simp
next
  case (Cons x xs)
  then have "sort_with cmp xs = xs" by simp
  with Cons.prems show ?case by (cases xs) auto
qed

lemma sorted_split:
  "sorted (map f xs) \<Longrightarrow> (\<And>x y. P x \<Longrightarrow> \<not> P y \<Longrightarrow> f x < f y) \<Longrightarrow>
   xs = filter P xs @ filter (\<lambda>x. \<not> P x) xs"
proof (induction xs)
  case Nil
  then show ?case by simp
next
  case (Cons x xs)
  show ?case
  proof (cases "P x")
    case True
    with Cons show ?thesis by simp
  next
    case False
    have "\<not> P y" if "y \<in> set xs" for y
    proof
      assume "P y"
      then have "f y < f x" using False Cons.prems(2) by blast
      moreover have "f x \<le> f y" using Cons.prems(1) that by simp
      ultimately show False by simp
    qed
    then have "filter P xs = []" "filter (\<lambda>x. \<not> P x) xs = xs"
      by (auto simp: filter_empty_conv filter_id_conv)
    with False show ?thesis by simp
  qed
qed

lemma sorted_second:
  fixes f :: "'a \<Rightarrow> nat \<times> int"
  shows "sorted (map f xs) \<Longrightarrow> \<forall>x\<in>set xs. f x = (0, g x) \<Longrightarrow> sorted (map g xs)"
  by (induction xs) (auto simp: less_eq_prod_def)

lemma compare_reminder_key:
  assumes "reminder a \<noteq> Some InvalidDate" "reminder b \<noteq> Some InvalidDate"
  shows "(compareTasks host By_reminder a b \<le> 0) = (reminder_key a \<le> reminder_key b)"
  using assms
  by (auto simp: compareTasks_def reminder_key_def split: option.splits Date.splits)

lemma sort_reminder_key:
  assumes "list_all (\<lambda>task. reminder task \<noteq> Some InvalidDate) tasks"
  shows "sortTasks host By_reminder tasks = sort_key reminder_key tasks"
  unfolding sortTasks_def
  by (rule sort_with_key) (use assms in \<open>auto simp: list_all_iff compare_reminder_key\<close>)

lemma reminder_key_None: "reminder_key t = (1, 0) \<longleftrightarrow> reminder t = None"
  by (auto simp: reminder_key_def split: option.splits Date.splits)

lemma reminder_key_Time:
  "reminder t \<noteq> Some InvalidDate \<Longrightarrow> reminder_key t = (0, ms) \<longleftrightarrow> reminder t = Some (Time ms)"
  by (auto simp: reminder_key_def split: option.splits Date.splits)

lemma ex_list_sorted:
  "sortTasks ex_host By_reminder ex_list =
     [ex_task ''3'' (Some (Time 10)) False [], ex_task ''5'' (Some (Time 10)) False [],
      ex_task ''2'' (Some (Time 20)) False [], ex_task ''1'' None False [],
      ex_task ''4'' None False []]"
  by (simp add: sortTasks_def ex_list_def ex_task_def compareTasks_def)

lemma set_sortTasks [simp]: "set (sortTasks host order tasks) = set tasks"
  by (simp add: sortTasks_def)

lemma set_filteredTasks:
  "set (filteredTasks host now filters tasks) = {task \<in> set tasks. keeps host now filters task}"
  by (auto simp: filteredTasks_def)

lemma keeps_overdue:
  "status filters = S_overdue \<Longrightarrow>
   keeps host now filters task \<longleftrightarrow>
     keeps host now (filters\<lparr>status := S_all\<rparr>) task \<and>
     (isOverdue now task \<or> list_ex (isOverdue now) (subtasks task))"
  by (auto simp: keeps_def Let_def)

lemma keeps_unfiltered:
  "search filters = [] \<Longrightarrow> tag filters = ''all'' \<Longrightarrow> status filters = S_all \<Longrightarrow>
   keeps host now filters task"
  by (simp add: keeps_def)

lemma keeps_clock_free:
  "status filters = S_all \<or> status filters = S_completed \<Longrightarrow>
   keeps host now filters task = keeps host now' filters task"
  by (auto simp: keeps_def Let_def)

text \<open>
  Claim C6. A task is overdue at \<open>now\<close> exactly when its reminder is a date earlier
  than \<open>now\<close> and it is not completed. With \<^verbatim>\<open>status = overdue\<close>, a top-level task
  is in the view exactly when it passes the search and tag criteria and is overdue
  itself or has an overdue subtask; with no search text and tag \<^verbatim>\<open>all\<close>, exactly when
  it is overdue itself or has an overdue subtask. So a task that is not completed, with
  a reminder one hour before \<open>now\<close>, is in the view; the same task completed, with no
  overdue subtask, is not; a task without a reminder that has an overdue subtask is.
\<close>

theorem overdue_filter:
  "(isOverdue now task \<longleftrightarrow>
      (\<exists>ms. reminder task = Some (Time ms) \<and> ms < now) \<and> \<not> completed task) \<and>
   (status filters = S_overdue \<longrightarrow>
      (task \<in> set (filteredTasks host now filters tasks) \<longleftrightarrow>
         task \<in> set tasks \<and> keeps host now (filters\<lparr>status := S_all\<rparr>) task \<and>
         (isOverdue now task \<or> list_ex (isOverdue now) (subtasks task)))) \<and>
   (status filters = S_overdue \<and> search filters = [] \<and> tag filters = ''all'' \<longrightarrow>
      (task \<in> set (filteredTasks host now filters tasks) \<longleftrightarrow>
         task \<in> set tasks \<and>
         (isOverdue now task \<or> (\<exists>sub\<in>set (subtasks task). isOverdue now sub))) \<and>
      (task \<in> set tasks \<and> reminder task = Some (Time (now - 3600000)) \<and> \<not> completed task \<longrightarrow>
         task \<in> set (filteredTasks host now filters tasks)) \<and>
      (reminder task = Some (Time (now - 3600000)) \<and> completed task \<and>
         \<not> (\<exists>sub\<in>set (subtasks task). isOverdue now sub) \<longrightarrow>
         task \<notin> set (filteredTasks host now filters tasks)) \<and>
      (task \<in> set tasks \<and> reminder task = None \<and>
         (\<exists>sub\<in>set (subtasks task). isOverdue now sub) \<longrightarrow>
         task \<in> set (filteredTasks host now filters tasks)))"
proof -
  have od: "isOverdue now task \<longleftrightarrow>
      (\<exists>ms. reminder task = Some (Time ms) \<and> ms < now) \<and> \<not> completed task"
  proof (cases "reminder task")
    case None
    then show ?thesis by (simp add: isOverdue_def)
  next
    case (Some d)
    then show ?thesis by (cases d) (simp_all add: isOverdue_def)
  qed
  have general: "task \<in> set (filteredTasks host now filters tasks) \<longleftrightarrow>
         task \<in> set tasks \<and> keeps host now (filters\<lparr>status := S_all\<rparr>) task \<and>
         (isOverdue now task \<or> list_ex (isOverdue now) (subtasks task))"
    if "status filters = S_overdue"
    using that by (simp add: set_filteredTasks keeps_overdue)
  have plain: "task \<in> set (filteredTasks host now filters tasks) \<longleftrightarrow>
         task \<in> set tasks \<and>
         (isOverdue now task \<or> (\<exists>sub\<in>set (subtasks task). isOverdue now sub))"
    if "status filters = S_overdue \<and> search filters = [] \<and> tag filters = ''all''"
  proof -
    from that have "keeps host now (filters\<lparr>status := S_all\<rparr>) task"
      by (simp add: keeps_unfiltered)
    with that general show ?thesis by (simp add: list_ex_iff)
  qed
  have hour: "isOverdue now task" if "reminder task = Some (Time (now - 3600000))" "\<not> completed task"
    using that by (simp add: od)
  have compl: "\<not> isOverdue now task" if "completed task"
    using that by (simp add: od)
  show ?thesis using od general plain hour compl by blast
qed

theorem overdue_filter_witness:
  "400000 = 4000000 - (3600000 :: int) \<and> status ex_overdue = S_overdue \<and> search ex_overdue = [] \<and> tag ex_overdue = ''all'' \<and>
   isOverdue 4000000 ex_late \<and> \<not> isOverdue 4000000 ex_late_done \<and> \<not> isOverdue 4000000 ex_parent \<and>
   ex_late \<in> set (filteredTasks ex_host 4000000 ex_overdue [ex_late, ex_late_done, ex_parent, ex_plain]) \<and>
   ex_late_done \<notin> set (filteredTasks ex_host 4000000 ex_overdue [ex_late, ex_late_done, ex_parent, ex_plain]) \<and>
   ex_parent \<in> set (filteredTasks ex_host 4000000 ex_overdue [ex_late, ex_late_done, ex_parent, ex_plain]) \<and>
   ex_plain \<notin> set (filteredTasks ex_host 4000000 ex_overdue [ex_late, ex_late_done, ex_parent, ex_plain])"
  using overdue_filter[of 4000000 ex_late ex_overdue ex_host "[ex_late, ex_late_done, ex_parent, ex_plain]"]
    overdue_filter[of 4000000 ex_late_done ex_overdue ex_host "[ex_late, ex_late_done, ex_parent, ex_plain]"]
    overdue_filter[of 4000000 ex_parent ex_overdue ex_host "[ex_late, ex_late_done, ex_parent, ex_plain]"]
    overdue_filter[of 4000000 ex_plain ex_overdue ex_host "[ex_late, ex_late_done, ex_parent, ex_plain]"]
  by (simp add: ex_overdue_def ex_late_def ex_late_done_def ex_parent_def ex_plain_def ex_task_def
       isOverdue_def keeps_def)

text \<open>
  Claim C8, as stated, fails on a list that holds an Invalid Date, which the loader can
  put into the state: its \<^verbatim>\<open>getTime()\<close> is NaN, the comparator returns NaN against every
  other date, and the sort reads NaN as \<open>0\<close>. With reminders at 30, an Invalid Date and
  10, each neighbour compares as equal, the list stays as it is, and 30 comes before 10.
\<close>

theorem invalid_date_breaks_order:
  "sortTasks ex_host By_reminder ex_invalid = ex_invalid \<and>
   map reminder (sortTasks ex_host By_reminder ex_invalid) =
     [Some (Time 30), Some InvalidDate, Some (Time 10)] \<and>
   compareTasks ex_host By_reminder (ex_invalid ! 0) (ex_invalid ! 1) = 0 \<and>
   compareTasks ex_host By_reminder (ex_invalid ! 1) (ex_invalid ! 2) = 0 \<and>
   compareTasks ex_host By_reminder (ex_invalid ! 0) (ex_invalid ! 2) = 20"
  by (simp add: sortTasks_def ex_invalid_def ex_task_def compareTasks_def)

text \<open>
  Claim C8, amended. On tasks none of whose reminders is an Invalid Date, sorting by
  \<^verbatim>\<open>reminder\<close> permutes the list; the result is its tasks with a reminder followed by
  the tasks without one, these in their original order; the tasks with a reminder are in
  ascending order of time value; and the tasks with the same time value keep their
  original order.
\<close>

theorem sort_by_reminder:
  assumes "list_all (\<lambda>task. reminder task \<noteq> Some InvalidDate) tasks"
  shows "mset (sortTasks host By_reminder tasks) = mset tasks \<and>
         sortTasks host By_reminder tasks =
           filter (\<lambda>task. reminder task \<noteq> None) (sortTasks host By_reminder tasks) @
           filter (\<lambda>task. reminder task = None) tasks \<and>
         sorted (map reminder_time
           (filter (\<lambda>task. reminder task \<noteq> None) (sortTasks host By_reminder tasks))) \<and>
         filter (\<lambda>task. reminder task = Some (Time ms)) (sortTasks host By_reminder tasks) =
           filter (\<lambda>task. reminder task = Some (Time ms)) tasks"
proof -
  let ?r = "sortTasks host By_reminder tasks"
  have r: "?r = sort_key reminder_key tasks" by (rule sort_reminder_key[OF assms])
  have valid: "reminder t \<noteq> Some InvalidDate" if "t \<in> set tasks" for t
    using assms that by (simp add: list_all_iff)
  have s: "sorted (map reminder_key ?r)" by (simp add: r)
  have m: "mset ?r = mset tasks" by (simp add: r)
  have stable: "filter (\<lambda>t. reminder_key t = k) ?r = filter (\<lambda>t. reminder_key t = k) tasks" for k
    by (simp add: r sort_key_stable)
  have none: "filter (\<lambda>t. reminder t = None) ?r = filter (\<lambda>t. reminder t = None) tasks"
    using stable[of "(1, 0)"] by (simp only: reminder_key_None)
  have "?r = filter (\<lambda>t. reminder t \<noteq> None) ?r @ filter (\<lambda>t. \<not> reminder t \<noteq> None) ?r"
  proof (rule sorted_split[OF s])
    fix x y :: Task assume "reminder x \<noteq> None" "\<not> reminder y \<noteq> None"
    then show "reminder_key x < reminder_key y"
      by (auto simp: reminder_key_def split: option.splits Date.splits)
  qed
  then have split: "?r = filter (\<lambda>t. reminder t \<noteq> None) ?r @ filter (\<lambda>t. reminder t = None) tasks"
    using none by simp
  have "sorted (map reminder_key (filter (\<lambda>t. reminder t \<noteq> None) ?r))"
    using s by (simp add: sorted_filter)
  moreover have "reminder_key t = (0, reminder_time t)"
    if "t \<in> set (filter (\<lambda>t. reminder t \<noteq> None) ?r)" for t
    using that valid[of t] r
    by (auto simp: reminder_key_def reminder_time_def split: option.splits Date.splits)
  ultimately have asc: "sorted (map reminder_time (filter (\<lambda>t. reminder t \<noteq> None) ?r))"
    by (intro sorted_second[where f = reminder_key]) blast+
  have "filter (\<lambda>t. reminder t = Some (Time ms)) ?r = filter (\<lambda>t. reminder_key t = (0, ms)) ?r"
    by (rule filter_cong) (use valid r in \<open>auto simp: reminder_key_Time\<close>)
  also have "\<dots> = filter (\<lambda>t. reminder_key t = (0, ms)) tasks" by (rule stable)
  also have "\<dots> = filter (\<lambda>t. reminder t = Some (Time ms)) tasks"
    by (rule filter_cong) (use valid in \<open>auto simp: reminder_key_Time\<close>)
  finally show ?thesis using m split asc by blast
qed

theorem sort_by_reminder_witness:
  "list_all (\<lambda>task. reminder task \<noteq> Some InvalidDate) ex_list \<and>
   sortTasks ex_host By_reminder ex_list =
     [ex_task ''3'' (Some (Time 10)) False [], ex_task ''5'' (Some (Time 10)) False [],
      ex_task ''2'' (Some (Time 20)) False [], ex_task ''1'' None False [],
      ex_task ''4'' None False []] \<and>
   mset (sortTasks ex_host By_reminder ex_list) = mset ex_list \<and>
   filter (\<lambda>task. reminder task = Some (Time 10)) (sortTasks ex_host By_reminder ex_list) =
     [ex_task ''3'' (Some (Time 10)) False [], ex_task ''5'' (Some (Time 10)) False []]"
proof -
  have v: "list_all (\<lambda>task. reminder task \<noteq> Some InvalidDate) ex_list"
    by (simp add: ex_list_def ex_task_def)
  have f: "filter (\<lambda>task. reminder task = Some (Time 10)) ex_list =
     [ex_task ''3'' (Some (Time 10)) False [], ex_task ''5'' (Some (Time 10)) False []]"
    by (simp add: ex_list_def ex_task_def)
  from sort_by_reminder[OF v, of ex_host 10]
  have m: "mset (sortTasks ex_host By_reminder ex_list) = mset ex_list"
    and st: "filter (\<lambda>task. reminder task = Some (Time 10)) (sortTasks ex_host By_reminder ex_list) =
      filter (\<lambda>task. reminder task = Some (Time 10)) ex_list"
    by blast+
  show ?thesis
    by (intro conjI) (rule v, rule ex_list_sorted, rule m, simp only: st f)
qed

text \<open>
  Claim C10, as stated, fails: the view reads the clock, so the same tree and the same
  filter state give different sequences at different times. A task whose reminder is at
  400000 is not in the overdue view at 300000 and is in it at 4000000.
\<close>

theorem view_reads_clock:
  "filteredTasks ex_host 300000 ex_overdue [ex_late] = [] \<and>
   filteredTasks ex_host 4000000 ex_overdue [ex_late] = [ex_late]"
  by (simp add: filteredTasks_def sortTasks_def keeps_def ex_overdue_def ex_late_def ex_task_def
       isOverdue_def)

text \<open>
  Claim C10, amended. The view is a function of the tree, the filter state and the
  clock reading (\<open>filteredTasks\<close>). Evaluated on the array of the tree in a store, it
  leaves that array and every other array of the store as they were and returns a newly
  allocated array holding the view. With \<^verbatim>\<open>status\<close> \<^verbatim>\<open>all\<close> or \<^verbatim>\<open>completed\<close> the
  view does not depend on the clock reading.
\<close>

theorem view_pure_given_clock:
  "(tasks < length h \<longrightarrow>
      (case filteredTasks_in_store host now filters tasks h of
         (result, h') \<Rightarrow>
           h' ! tasks = h ! tasks \<and> take (length h) h' = h \<and> result = length h \<and>
           h' ! result = filteredTasks host now filters (h ! tasks))) \<and>
   (status filters = S_all \<or> status filters = S_completed \<longrightarrow>
      filteredTasks host now filters ts = filteredTasks host now' filters ts)"
proof (intro conjI impI)
  assume "tasks < length h"
  then show "case filteredTasks_in_store host now filters tasks h of
         (result, h') \<Rightarrow>
           h' ! tasks = h ! tasks \<and> take (length h) h' = h \<and> result = length h \<and>
           h' ! result = filteredTasks host now filters (h ! tasks)"
    by (simp add: filteredTasks_in_store_def array_filter_def array_sort_def filteredTasks_def
          sortTasks_def nth_append)
next
  assume "status filters = S_all \<or> status filters = S_completed"
  then have "keeps host now filters = keeps host now' filters"
    using keeps_clock_free by blast
  then show "filteredTasks host now filters ts = filteredTasks host now' filters ts"
    by (simp add: filteredTasks_def)
qed

theorem view_pure_given_clock_witness:
  "(0::nat) < length [ex_list] \<and>
   filteredTasks_in_store ex_host 4000000 ex_all 0 [ex_list] =
     (1, [ex_list,
          [ex_task ''3'' (Some (Time 10)) False [], ex_task ''5'' (Some (Time 10)) False [],
           ex_task ''2'' (Some (Time 20)) False [], ex_task ''1'' None False [],
           ex_task ''4'' None False []]]) \<and>
   (status ex_all = S_all \<or> status ex_all = S_completed) \<and>
   filteredTasks ex_host 4000000 ex_all ex_list = filteredTasks ex_host 5 ex_all ex_list"
  using view_pure_given_clock[of 0 "[ex_list]" ex_host 4000000 ex_all ex_list 5] ex_list_sorted
  by (simp add: filteredTasks_in_store_def array_filter_def array_sort_def sortTasks_def
        ex_all_def keeps_def)


section \<open>Persistence\<close>

lemma those_map_Some: "\<forall>x\<in>set xs. f x = Some (g x) \<Longrightarrow> those (map f xs) = Some (map g xs)"
  by (induction xs) auto

lemma those_length: "those xs = Some ys \<Longrightarrow> length ys = length xs"
  by (induction xs arbitrary: ys) (auto split: option.splits)

lemma those_nth: "those xs = Some ys \<Longrightarrow> i < length xs \<Longrightarrow> xs ! i = Some (ys ! i)"
proof (induction xs arbitrary: ys i)
  case Nil
  then show ?case by simp
next
  case (Cons x xs)
  then show ?case by (cases i) (auto split: option.splits)
qed

lemma loadSubtask_leaf:
  "subtasks s = [] \<Longrightarrow> loadSubtask codec (toRaw codec s) = Some (reloadSub codec s)"
  by (cases s) (simp add: redate_def)

lemma loadTask_single:
  assumes "list_all (\<lambda>s. subtasks s = []) (subtasks task)"
  shows "loadTask codec (toRaw codec task) = Some (reloadTask codec task)"
proof (cases task)
  case (Task i t c col tg r subs p)
  with assms have "\<forall>s\<in>set subs. loadSubtask codec (toRaw codec s) = Some (reloadSub codec s)"
    by (simp add: list_all_iff loadSubtask_leaf)
  then have "those (map (loadSubtask codec) (map (toRaw codec) subs)) = Some (map (reloadSub codec) subs)"
    using those_map_Some[of subs "loadSubtask codec \<circ> toRaw codec" "reloadSub codec"]
    by simp
  with Task show ?thesis by (simp add: redate_def)
qed

lemma reload_single_level:
  assumes "single_level tasks"
  shows "load codec (save codec tasks) = SetTasks (map (reloadTask codec) tasks)"
proof -
  from assms have "\<forall>task\<in>set tasks. loadTask codec (toRaw codec task) = Some (reloadTask codec task)"
    by (simp add: single_level_def list_all_iff loadTask_single)
  then have "those (map (loadTask codec) (map (toRaw codec) tasks)) = Some (map (reloadTask codec) tasks)"
    using those_map_Some[of tasks "loadTask codec \<circ> toRaw codec" "reloadTask codec"]
    by simp
  then show ?thesis by (simp add: load_def save_def)
qed

lemma redate_valid:
  "(case r of None \<Rightarrow> True | Some d \<Rightarrow> round_trips codec d) \<Longrightarrow> redate codec r = r"
  by (auto simp: redate_def reminderJSON_def revive_def split: option.splits Date.splits)

lemma reloadSub_valid:
  "list_all (round_trips codec) (dates1 s) \<Longrightarrow> reloadSub codec s = s"
  by (cases s) (auto simp: redate_valid split: option.splits)

lemma dates_mem: "s \<in> set tasks \<Longrightarrow> set (dates1 s) \<subseteq> set (dates tasks)"
  by (induction tasks) auto

lemma reloadTask_valid:
  assumes "list_all (round_trips codec) (dates1 task)"
  shows "reloadTask codec task = task"
proof (cases task)
  case (Task i t c col tg r subs p)
  with assms have r: "redate codec r = r" by (auto simp: redate_valid split: option.splits)
  have "reloadSub codec s = s" if "s \<in> set subs" for s
    using assms Task dates_mem[OF that] by (intro reloadSub_valid) (auto simp: list_all_iff)
  then have "map (reloadSub codec) subs = subs" by (simp add: map_idI)
  with r Task show ?thesis by simp
qed

lemma loadTask_id: "loadTask codec r = Some task \<Longrightarrow> task_id task = r_id r"
  by (cases r) (auto split: option.splits)

lemma load_keeps_records:
  assumes "load codec (Doc d) = SetTasks ts"
  shows "map task_id ts = map r_id d"
proof -
  from assms have th: "those (map (loadTask codec) d) = Some ts"
    by (simp add: load_def split: option.splits)
  then have len: "length ts = length d" using those_length by fastforce
  show ?thesis
  proof (rule nth_equalityI)
    show "length (map task_id ts) = length (map r_id d)" using len by simp
  next
    fix i assume "i < length (map task_id ts)"
    then have i: "i < length d" using len by simp
    with those_nth[OF th, of i] have "loadTask codec (d ! i) = Some (ts ! i)" by simp
    then have "task_id (ts ! i) = r_id (d ! i)" by (rule loadTask_id)
    with i len show "map task_id ts ! i = map r_id d ! i" by simp
  qed
qed

lemma reloadTask_id [simp]: "task_id (reloadTask codec task) = task_id task"
  by (cases task) simp

lemma invalid_date_reloads_absent: "redate codec (Some InvalidDate) = None"
  by (simp add: redate_def reminderJSON_def revive_def)

text \<open>
  Claim C1. For a tree with at most two levels whose reminders are valid dates (the
  host's ISO codec returns each of them), loading what was saved sets the state to the
  same tree: every field of every task and subtask, the time value of every reminder to
  the millisecond, and an absent reminder as an absent reminder.
\<close>

theorem save_load_roundtrip:
  assumes "single_level t" and "list_all (round_trips codec) (dates t)"
  shows "load codec (save codec t) = SetTasks t"
proof -
  have "reloadTask codec task = task" if "task \<in> set t" for task
    using assms(2) dates_mem[OF that] by (intro reloadTask_valid) (auto simp: list_all_iff)
  then have "map (reloadTask codec) t = t" by (simp add: map_idI)
  with reload_single_level[OF assms(1), of codec] show ?thesis by simp
qed

theorem save_load_roundtrip_witness:
  "single_level ex_dated \<and> list_all (round_trips ex_codec) (dates ex_dated) \<and>
   save ex_codec ex_dated =
     Doc [Raw ''1'' ''Buy milk'' False ''bg-card'' [''errand''] (Str ''1970-01-01T00:01:30.000Z'')
            (Some [Raw ''2'' ''2% milk'' True ''bg-blue-50'' [] (Str ''1970-01-01T00:00:00.000Z'')
                     (Some []) (Some ''1''),
                   Raw ''3'' ''Oat milk'' False ''bg-card'' [''vegan''] Omitted (Some []) (Some ''1'')])
            None,
          Raw ''4'' ''Call home'' False ''bg-card'' [] Omitted (Some []) None] \<and>
   load ex_codec (save ex_codec ex_dated) = SetTasks ex_dated"
  using save_load_roundtrip[of ex_dated ex_codec]
  by (simp add: ex_dated_def ex_codec_def single_level_def save_def reminderJSON_def)

lemma those_map_if:
  "\<forall>x\<in>set xs. f x = (if P x then Some (g x) else None) \<Longrightarrow>
   those (map f xs) = (if list_all P xs then Some (map g xs) else None)"
  by (induction xs) auto

lemma asParsed_char:
  "asParsed r = (if task_as_parsed r then Some (record_task r) else None)"
proof (induction r)
  case (Raw i t c col tg r subs p)
  show ?case
  proof (cases subs)
    case None
    then show ?thesis by simp
  next
    case (Some rs)
    with Raw.IH have "\<forall>x\<in>set rs. asParsed x = (if task_as_parsed x then Some (record_task x) else None)"
      by simp
    then have "those (map asParsed rs) =
        (if list_all task_as_parsed rs then Some (map record_task rs) else None)"
      by (rule those_map_if)
    with Some show ?thesis by (simp split: Field.splits)
  qed
qed

lemma loadSubtask_char:
  "loadSubtask codec r = (if sub_record_ok r then Some (revived_sub codec r) else None)"
proof (cases r)
  case (Raw i t c col tg rem subs p)
  show ?thesis
  proof (cases subs)
    case None
    with Raw show ?thesis by (simp add: sub_record_ok_def)
  next
    case (Some rs)
    have "those (map asParsed rs) =
        (if list_all task_as_parsed rs then Some (map record_task rs) else None)"
      by (rule those_map_if) (simp add: asParsed_char)
    with Raw Some show ?thesis by (simp add: sub_record_ok_def)
  qed
qed

lemma loadTask_char:
  "loadTask codec r = (if top_record_ok r then Some (revived_task codec r) else None)"
proof (cases r)
  case (Raw i t c col tg rem subs p)
  show ?thesis
  proof (cases subs)
    case None
    with Raw show ?thesis by (simp add: top_record_ok_def)
  next
    case (Some rs)
    have "those (map (loadSubtask codec) rs) =
        (if list_all sub_record_ok rs then Some (map (revived_sub codec) rs) else None)"
      by (rule those_map_if) (simp add: loadSubtask_char)
    with Raw Some show ?thesis by (simp add: top_record_ok_def)
  qed
qed

lemma load_char:
  "load codec (Doc d) =
     (if list_all top_record_ok d then SetTasks (map (revived_task codec) d) else IllTyped)"
proof -
  have "those (map (loadTask codec) d) =
      (if list_all top_record_ok d then Some (map (revived_task codec) d) else None)"
    by (rule those_map_if) (simp add: loadTask_char)
  then show ?thesis by (simp add: load_def)
qed

text \<open>
  Claim C7, as stated, fails: the loader has no handler. Stored text that is not JSON,
  or that is JSON but no array, makes the effect throw, and a document with a reminder
  string that the date parser rejects is loaded as it is, that task carrying an Invalid
  Date.
\<close>

theorem load_does_not_recover:
  "load ex_codec (NotJson ''{oops'') = SyntaxError \<and>
   load ex_codec NotArray = TypeError \<and>
   load ex_codec (Doc ex_corrupt) =
     SetTasks [Task ''1'' ''Buy milk'' False ''bg-card'' [] (Some InvalidDate) [] None,
               Task ''2'' ''Call home'' False ''bg-card'' [] None [] None]"
  by (simp add: load_def ex_corrupt_def ex_codec_def revive_def)

text \<open>
  Claim C7, amended. With nothing stored, or the empty string, the state is left as it
  is (the empty tree at mount). Stored text that is not empty and not JSON makes the
  loader throw a SyntaxError, and JSON text of a value that is not an array makes it
  throw a TypeError. JSON text of an array of task records is never treated as absent.
  When every subtask record holds its \<^verbatim>\<open>subtasks\<close> array and no record below the second
  level holds a reminder string other than the empty one, the state becomes the tasks of
  the records, one for each record and in order: each task and subtask has the fields of
  its record, a top-level record without the \<^verbatim>\<open>subtasks\<close> key has no subtasks, and a
  reminder at the first two levels is absent for a missing, null or empty one and is
  otherwise what the date parser makes of the string, so a string that the parser
  rejects gives that task an Invalid Date reminder. For any other array the state is set
  to a value that is not a task tree.
\<close>

theorem load_outcomes:
  "load codec NoItem = Unchanged \<and>
   load codec (NotJson s) = (if s = [] then Unchanged else SyntaxError) \<and>
   load codec NotArray = TypeError \<and>
   load codec (Doc d) =
     (if list_all top_record_ok d then SetTasks (map (revived_task codec) d) else IllTyped) \<and>
   revived_task codec (Raw i t c col tg r subs p) =
     Task i t c col tg
       (case r of Omitted \<Rightarrow> None | Null \<Rightarrow> None
        | Str s' \<Rightarrow> if s' = [] then None else Some (parseDate codec s'))
       (case subs of None \<Rightarrow> [] | Some rs \<Rightarrow> map (revived_sub codec) rs) p \<and>
   revived_sub codec (Raw i t c col tg r subs p) =
     Task i t c col tg
       (case r of Omitted \<Rightarrow> None | Null \<Rightarrow> None
        | Str s' \<Rightarrow> if s' = [] then None else Some (parseDate codec s'))
       (case subs of None \<Rightarrow> [] | Some rs \<Rightarrow> map record_task rs) p \<and>
   record_task (Raw i t c col tg r subs p) =
     Task i t c col tg None (case subs of None \<Rightarrow> [] | Some rs \<Rightarrow> map record_task rs) p \<and>
   (s \<noteq> [] \<and> parseDate codec s = InvalidDate \<longrightarrow>
      reminder (revived_task codec (Raw i t c col tg (Str s) subs p)) = Some InvalidDate \<and>
      reminder (revived_sub codec (Raw i t c col tg (Str s) subs p)) = Some InvalidDate)"
proof -
  have outer: "load codec NoItem = Unchanged"
    "load codec (NotJson s) = (if s = [] then Unchanged else SyntaxError)"
    "load codec NotArray = TypeError"
    by (simp_all add: load_def)
  have fields: "revived_task codec (Raw i t c col tg r subs p) =
     Task i t c col tg
       (case r of Omitted \<Rightarrow> None | Null \<Rightarrow> None
        | Str s' \<Rightarrow> if s' = [] then None else Some (parseDate codec s'))
       (case subs of None \<Rightarrow> [] | Some rs \<Rightarrow> map (revived_sub codec) rs) p"
    "revived_sub codec (Raw i t c col tg r subs p) =
     Task i t c col tg
       (case r of Omitted \<Rightarrow> None | Null \<Rightarrow> None
        | Str s' \<Rightarrow> if s' = [] then None else Some (parseDate codec s'))
       (case subs of None \<Rightarrow> [] | Some rs \<Rightarrow> map record_task rs) p"
    by (simp_all add: revive_def)
  have invalid: "reminder (revived_task codec (Raw i t c col tg (Str s) subs p)) = Some InvalidDate"
    "reminder (revived_sub codec (Raw i t c col tg (Str s) subs p)) = Some InvalidDate"
    if "s \<noteq> [] \<and> parseDate codec s = InvalidDate"
    using that by (simp_all add: revive_def)
  show ?thesis
    using outer load_char[of codec d] fields invalid
    by (simp only: record_task.simps simp_thms) blast
qed

theorem load_outcomes_witness:
  "list_all top_record_ok ex_corrupt2 \<and>
   load ex_codec (Doc ex_corrupt2) =
     SetTasks
       [Task ''1'' ''Buy milk'' False ''bg-card'' [] (Some InvalidDate)
          [Task ''2'' ''2% milk'' True ''bg-card'' [] (Some InvalidDate) [] (Some ''1'')] None,
        Task ''3'' ''Call home'' False ''bg-card'' [''family''] None [] None] \<and>
   \<not> list_all top_record_ok ex_ill \<and> load ex_codec (Doc ex_ill) = IllTyped \<and>
   ''not a date'' \<noteq> [] \<and> parseDate ex_codec ''not a date'' = InvalidDate \<and>
   reminder (revived_task ex_codec
       (Raw ''1'' ''Buy milk'' False ''bg-card'' [] (Str ''not a date'') None None)) =
     Some InvalidDate"
  using load_outcomes[of ex_codec "''not a date''" ex_corrupt2
      "''1''" "''Buy milk''" False "''bg-card''" "[]" Omitted None None]
    load_outcomes[of ex_codec "''not a date''" ex_ill
      "''1''" "''Buy milk''" False "''bg-card''" "[]" Omitted None None]
  by (simp add: ex_corrupt2_def ex_ill_def ex_codec_def revive_def top_record_ok_def
        sub_record_ok_def)

section \<open>Sorting by creation\<close>

lemma attach_top_ids [simp]: "map task_id (map (attach pid n) tasks) = map task_id tasks"
  by (induction tasks) (auto simp: attach_def)

lemma update_top_ids:
  "u_id updates = None \<Longrightarrow>
   map task_id (updateTaskRecursive taskId updates tasks) = map task_id tasks"
proof (induction tasks)
  case Nil
  then show ?case by simp
next
  case (Cons a tasks)
  then show ?case by (cases a) auto
qed

lemma delete_top_ids:
  "map task_id (deleteTaskRecursive taskId tasks) = filter (\<lambda>i. i \<noteq> taskId) (map task_id tasks)"
proof (induction tasks)
  case Nil
  then show ?case by simp
next
  case (Cons a tasks)
  then show ?case by (cases a) auto
qed

lemma add_top_ids:
  "map task_id (addTask d p now tasks) =
     (if p = None \<or> p = Some [] then map task_id tasks @ [toString now] else map task_id tasks)"
proof (cases "p \<noteq> None \<and> p \<noteq> Some []")
  case True
  then obtain pid where pid: "p = Some pid" "pid \<noteq> []" by auto
  have "map task_id (addTask d p now tasks) = map task_id tasks"
    unfolding pid(1) addTask_attach[OF pid(2)] by (rule attach_top_ids)
  with True show ?thesis by simp
next
  case False
  then have "addTask d p now tasks = tasks @ [newTask d p now]" by (auto simp: addTask_def)
  with False show ?thesis by (auto simp: newTask_def)
qed

lemma run_top_ids:
  "list_all keeps_shape ops \<Longrightarrow>
   map task_id (run ops tasks) = insertion_order ops (map task_id tasks)"
proof (induction ops arbitrary: tasks)
  case Nil
  then show ?case by simp
next
  case (Cons op ops)
  then have IH: "map task_id (run ops (step op tasks)) = insertion_order ops (map task_id (step op tasks))"
    by simp
  show ?case
  proof (cases op)
    case (Add d p now)
    with IH show ?thesis by (simp add: add_top_ids)
  next
    case (Update x u)
    with IH Cons.prems show ?thesis by (simp add: updateTask_def update_top_ids)
  next
    case (Delete x)
    with IH show ?thesis by (simp add: deleteTask_def delete_top_ids)
  qed
qed

lemma ex_ops_run:
  "run ex_ops [] =
     [Task ''5'' ''Buy milk'' False ''bg-card'' [''errand''] None
        [Task ''7'' ''Buy milk'' True ''bg-card'' [''errand''] None [] (Some ''5'')] None,
      Task ''5'' ''Buy milk'' False ''bg-card'' [''errand''] None
        [Task ''7'' ''Buy milk'' True ''bg-card'' [''errand''] None [] (Some ''5'')] None,
      Task ''7'' ''Buy milk'' True ''bg-card'' [''errand''] None [] None]"
  by (simp add: ex_ops_def ex_data_def ex_done_def addTask_def newTask_def toString_small
        updateTask_def deleteTask_def)

lemma created_add:
  assumes "created_inv seen tasks" "\<forall>m\<in>seen. m \<le> now"
  shows "created_inv (insert now seen) (addTask d p now tasks)"
proof (cases "p \<noteq> None \<and> p \<noteq> Some []")
  case True
  then obtain pid where pid: "p = Some pid" "pid \<noteq> []" by auto
  have "map task_id (addTask d p now tasks) = map task_id tasks"
    unfolding pid(1) addTask_attach[OF pid(2)] by (rule attach_top_ids)
  with assms(1) show ?thesis by (auto simp: created_inv_def)
next
  case False
  then have eq: "addTask d p now tasks = tasks @ [newTask d p now]" by (auto simp: addTask_def)
  from assms(1) obtain cs where cs: "map task_id tasks = map toString cs" "sorted cs" "set cs \<subseteq> seen"
    by (auto simp: created_inv_def)
  have "map task_id (addTask d p now tasks) = map toString (cs @ [now])"
    using cs(1) by (simp add: eq newTask_def)
  moreover have "sorted (cs @ [now])" using cs(2,3) assms(2) by (auto simp: sorted_append)
  moreover have "set (cs @ [now]) \<subseteq> insert now seen" using cs(3) by auto
  ultimately show ?thesis unfolding created_inv_def by blast
qed

lemma created_update:
  assumes "created_inv seen tasks" "u_id u = None"
  shows "created_inv seen (updateTask x u tasks)"
  using assms by (simp add: created_inv_def updateTask_def update_top_ids)

lemma created_delete:
  assumes "created_inv seen tasks"
  shows "created_inv seen (deleteTask x tasks)"
proof -
  from assms obtain cs where cs: "map task_id tasks = map toString cs" "sorted cs" "set cs \<subseteq> seen"
    by (auto simp: created_inv_def)
  let ?cs = "filter (\<lambda>c. toString c \<noteq> x) cs"
  have "map task_id (deleteTask x tasks) = map toString ?cs"
    by (simp add: deleteTask_def delete_top_ids cs(1) filter_map comp_def)
  moreover have "sorted ?cs" using cs(2) by (rule sorted_wrt_filter)
  moreover have "set ?cs \<subseteq> seen" using cs(3) by auto
  ultimately show ?thesis unfolding created_inv_def by blast
qed

lemma run_created:
  "created_inv seen tasks \<Longrightarrow> sorted (clocks ops) \<Longrightarrow> list_all keeps_shape ops \<Longrightarrow>
   (\<forall>c\<in>set (clocks ops). \<forall>m\<in>seen. m \<le> c) \<Longrightarrow>
   created_inv (seen \<union> set (clocks ops)) (run ops tasks)"
proof (induction ops arbitrary: seen tasks)
  case Nil
  then show ?case by simp
next
  case (Cons op ops)
  show ?case
  proof (cases op)
    case (Add d p now)
    with Cons.prems have le: "\<forall>m\<in>seen. m \<le> now" by simp
    have inv: "created_inv (insert now seen) (step op tasks)"
      using created_add[OF Cons.prems(1) le] Add by simp
    have "\<forall>c\<in>set (clocks ops). \<forall>m\<in>insert now seen. m \<le> c"
      using Cons.prems(2,4) Add by auto
    with Cons.IH[OF inv] Cons.prems(2,3) Add show ?thesis by simp
  next
    case (Update x u)
    then have inv: "created_inv seen (step op tasks)"
      using created_update[OF Cons.prems(1)] Cons.prems(3) by simp
    from Cons.IH[OF inv] Cons.prems Update show ?thesis by simp
  next
    case (Delete x)
    then have inv: "created_inv seen (step op tasks)"
      using created_delete[OF Cons.prems(1)] by simp
    from Cons.IH[OF inv] Cons.prems Delete show ?thesis by simp
  qed
qed

lemma created_sorted:
  assumes "map task_id tasks = map toString cs" "sorted cs"
  shows "sortTasks host By_created tasks = tasks"
  unfolding sortTasks_def
proof (rule sort_with_sorted)
  have len: "length tasks = length cs" using assms(1) by (metis length_map)
  show "sorted_wrt (\<lambda>a b. compareTasks host By_created a b \<le> 0) tasks"
    unfolding sorted_wrt_iff_nth_less
  proof (intro allI impI)
    fix i j assume ij: "i < j" "j < length tasks"
    then have "task_id (tasks ! i) = toString (cs ! i)" "task_id (tasks ! j) = toString (cs ! j)"
      using assms(1) len by (metis nth_map order.strict_trans)+
    moreover have "cs ! i \<le> cs ! j" using assms(2) ij len by (simp add: sorted_iff_nth_mono)
    ultimately show "compareTasks host By_created (tasks ! i) (tasks ! j) \<le> 0"
      by (simp add: compareTasks_def parseInt_toString)
  qed
qed

text \<open>
  Claim C9, as stated, fails: the order is by the number in the id, which is the clock
  reading of the add. When the clock is set back between two adds, the later task
  sorts first. The type of \<open>updateTask\<close> also admits an update that names \<^verbatim>\<open>id\<close>,
  which moves the task in this order (no caller in the components passes one).
\<close>

theorem clock_set_back:
  "map task_id (run [Add ex_data None 5, Add ex_data None 3] []) = [''5'', ''3''] \<and>
   insertion_order [Add ex_data None 5, Add ex_data None 3] [] = [''5'', ''3''] \<and>
   map task_id (sortTasks ex_host By_created (run [Add ex_data None 5, Add ex_data None 3] []))
     = [''3'', ''5''] \<and>
   map task_id (run [Add ex_data None 5, Add ex_data None 7, Update ''5'' ex_renumber] [])
     = [''9'', ''7''] \<and>
   map task_id (sortTasks ex_host By_created
       (run [Add ex_data None 5, Add ex_data None 7, Update ''5'' ex_renumber] []))
     = [''7'', ''9'']"
  by (simp add: ex_data_def addTask_def newTask_def toString_small sortTasks_def compareTasks_def
        parseInt_def is_ws_def digit_val_def digit_table_eval updateTask_def ex_renumber_def)

text \<open>
  Claim C9, amended. After any sequence of adds, updates and deletes from the empty tree
  in which the adds read nondecreasing clock values and no update names the \<^verbatim>\<open>id\<close>
  or the \<^verbatim>\<open>subtasks\<close> field, sorting by \<^verbatim>\<open>created\<close> returns the top-level sequence
  as it is stored, and its ids are in the order of insertion (\<open>insertion_order\<close>).
  Saving and loading that tree gives a tree with the same top-level ids in the same
  order, which sorting by \<^verbatim>\<open>created\<close> again returns as it is.
\<close>

theorem sort_by_created:
  assumes "sorted (clocks ops)" and "list_all keeps_shape ops"
  shows "sortTasks host By_created (run ops []) = run ops [] \<and>
         map task_id (sortTasks host By_created (run ops [])) = insertion_order ops [] \<and>
         (\<exists>reloaded. load codec (save codec (run ops [])) = SetTasks reloaded \<and>
            map task_id reloaded = map task_id (run ops []) \<and>
            sortTasks host By_created reloaded = reloaded)"
proof -
  let ?t = "run ops []"
  have "created_inv {} []" by (simp add: created_inv_def)
  from run_created[OF this assms] obtain cs
    where cs: "map task_id ?t = map toString cs" "sorted cs"
    by (auto simp: created_inv_def)
  have s: "sortTasks host By_created ?t = ?t" by (rule created_sorted[OF cs])
  have o: "map task_id (sortTasks host By_created ?t) = insertion_order ops []"
    using run_top_ids[OF assms(2), of "[]"] by (simp add: s)
  have "height ?t \<le> 2" by (rule run_height[OF _ assms(2)]) simp
  then have "single_level ?t" by (simp add: single_level_height)
  then have l: "load codec (save codec ?t) = SetTasks (map (reloadTask codec) ?t)"
    by (rule reload_single_level)
  have ids: "map task_id (map (reloadTask codec) ?t) = map task_id ?t" by simp
  have "sortTasks host By_created (map (reloadTask codec) ?t) = map (reloadTask codec) ?t"
    by (rule created_sorted[OF _ cs(2)]) (simp only: ids cs(1))
  with s o l ids show ?thesis by blast
qed

theorem sort_by_created_witness:
  "sorted (clocks ex_ops) \<and> list_all keeps_shape ex_ops \<and>
   insertion_order ex_ops [] = [''5'', ''5'', ''7''] \<and>
   map task_id (sortTasks ex_host By_created (run ex_ops [])) = [''5'', ''5'', ''7''] \<and>
   sortTasks ex_host By_created (run ex_ops []) = run ex_ops [] \<and>
   load ex_codec (save ex_codec (run ex_ops [])) = SetTasks (run ex_ops [])"
proof -
  have a: "sorted (clocks ex_ops)" "list_all keeps_shape ex_ops"
    by (simp_all add: ex_ops_def ex_done_def)
  have i: "insertion_order ex_ops [] = [''5'', ''5'', ''7'']"
    by (simp add: ex_ops_def toString_small)
  have l: "load ex_codec (save ex_codec (run ex_ops [])) = SetTasks (run ex_ops [])"
    by (simp add: ex_ops_run save_def load_def reminderJSON_def revive_def)
  from sort_by_created[OF a, of ex_host ex_codec]
  have s: "sortTasks ex_host By_created (run ex_ops []) = run ex_ops []"
    and o: "map task_id (sortTasks ex_host By_created (run ex_ops [])) = insertion_order ex_ops []"
    by blast+
  show ?thesis
    by (intro conjI) (rule a(1), rule a(2), rule i, simp only: o i, rule s, rule l)
qed

end
